theory Spec2Isabelle
  imports Main "HOL-Library.Word"
begin

section \<open>JavaScript strings and values\<close>

text \<open>
  The module \<^verbatim>\<open>src/common/uri.ts\<close> packs parameter objects into the query component of a
  URI with \<^verbatim>\<open>JSON.stringify\<close> and reads them back with \<^verbatim>\<open>JSON.parse\<close>. A JavaScript string
  is a sequence of 16-bit code units; \<open>js\<close> embeds an ASCII literal, one code unit per
  character.
\<close>

type_synonym jschar = "16 word"
type_synonym jsstring = "jschar list"

definition js :: "string \<Rightarrow> jsstring" where
  "js s = map of_char s"

text \<open>
  The values that occur: \<^verbatim>\<open>undefined\<close>, \<^verbatim>\<open>null\<close>, booleans, numbers, strings, arrays and
  plain objects. An object is its list of own properties in enumeration order, every key
  once. A number is an integer (\<open>JNumber\<close>) or a non-integral decimal \<open>m * 10^e\<close> with
  \<open>e < 0\<close> and \<open>m\<close> not a multiple of ten (\<open>JDecimal\<close>); the rounding of IEEE doubles is
  outside this development.
\<close>

datatype json =
    JUndefined
  | JNull
  | JBool bool
  | JNumber int
  | JDecimal int int
  | JString jsstring
  | JArray "json list"
  | JObject "(jsstring \<times> json) list"

text \<open>What a \<^verbatim>\<open>throw\<close> carries: the two built-in errors the module can meet, and an error
  raised by a collaborator.\<close>

datatype error = SyntaxError | TypeError | HostError jsstring

subsection \<open>Property order of ordinary objects\<close>

definition is_digit :: "jschar \<Rightarrow> bool" where
  "is_digit c = (0x30 \<le> c \<and> c \<le> 0x39)"

definition digit_val :: "jschar \<Rightarrow> nat" where
  "digit_val c = unat c - 48"

definition digits_val :: "jsstring \<Rightarrow> nat" where
  "digits_val ds = foldl (\<lambda>a c. 10 * a + digit_val c) 0 ds"

text \<open>An array index is the canonical decimal form of an integer below \<open>2^32 - 1\<close>.\<close>

definition array_index :: "jsstring \<Rightarrow> nat option" where
  "array_index k =
     (if k \<noteq> [] \<and> list_all is_digit k \<and> (length k = 1 \<or> hd k \<noteq> 0x30)
         \<and> digits_val k < 4294967295
      then Some (digits_val k) else None)"

fun insert_index :: "nat \<Rightarrow> jsstring \<Rightarrow> json \<Rightarrow> (jsstring \<times> json) list \<Rightarrow> (jsstring \<times> json) list" where
  "insert_index i k v [] = [(k, v)]"
| "insert_index i k v ((k', v') # kvs) =
     (case array_index k' of
        Some j \<Rightarrow> if j < i then (k', v') # insert_index i k v kvs else (k, v) # (k', v') # kvs
      | None \<Rightarrow> (k, v) # (k', v') # kvs)"

text \<open>
  \<^verbatim>\<open>CreateDataProperty\<close>: an existing key keeps its place and takes the new value; a new
  array index goes among the indices in ascending order; any other new key goes last.
\<close>

definition obj_set :: "jsstring \<Rightarrow> json \<Rightarrow> (jsstring \<times> json) list \<Rightarrow> (jsstring \<times> json) list" where
  "obj_set k v kvs =
     (if map_of kvs k \<noteq> None then map (\<lambda>(k', v'). if k' = k then (k', v) else (k', v')) kvs
      else case array_index k of
             None \<Rightarrow> kvs @ [(k, v)]
           | Some i \<Rightarrow> insert_index i k v kvs)"

text \<open>
  Reading a property \<^verbatim>\<open>o.k\<close> (also what a destructuring pattern does): \<^verbatim>\<open>null\<close> and
  \<^verbatim>\<open>undefined\<close> have no properties and the read throws; a key an object does not own
  reads as \<^verbatim>\<open>undefined\<close>. The keys used here are not properties of any prototype.
\<close>

fun get_prop :: "json \<Rightarrow> jsstring \<Rightarrow> error + json" where
  "get_prop JUndefined k = Inl TypeError"
| "get_prop JNull k = Inl TypeError"
| "get_prop (JObject kvs) k = Inr (case map_of kvs k of None \<Rightarrow> JUndefined | Some v \<Rightarrow> v)"
| "get_prop v k = Inr JUndefined"

fun truthy :: "json \<Rightarrow> bool" where
  "truthy JUndefined = False"
| "truthy JNull = False"
| "truthy (JBool b) = b"
| "truthy (JNumber n) = (n \<noteq> 0)"
| "truthy (JString s) = (s \<noteq> [])"
| "truthy v = True"

section \<open>JSON.stringify\<close>

subsection \<open>Numbers\<close>

definition digit_char :: "nat \<Rightarrow> jschar" where
  "digit_char d = of_nat (48 + d)"

fun digits :: "nat \<Rightarrow> jsstring" where
  "digits n = (if n < 10 then [digit_char n] else digits (n div 10) @ [digit_char (n mod 10)])"

fun strip_zeros :: "nat \<Rightarrow> nat" where
  "strip_zeros n = (if n \<noteq> 0 \<and> n mod 10 = 0 then strip_zeros (n div 10) else n)"

text \<open>
  \<^verbatim>\<open>Number::toString\<close> in exponential form, for the digits \<open>ds\<close> of the significand and
  the position \<open>n\<close> of the decimal point: \<^verbatim>\<open>d.ddde+x\<close>.
\<close>

definition exponential :: "jsstring \<Rightarrow> int \<Rightarrow> jsstring" where
  "exponential ds n =
     (if length ds = 1 then ds else hd ds # 0x2E # tl ds)
     @ [0x65, if n - 1 < 0 then 0x2D else 0x2B] @ digits (nat \<bar>n - 1\<bar>)"

definition integer_to_string :: "nat \<Rightarrow> jsstring" where
  "integer_to_string n =
     (if n < 10 ^ 21 then digits n
      else exponential (digits (strip_zeros n)) (int (length (digits n))))"

definition decimal_to_string :: "nat \<Rightarrow> int \<Rightarrow> jsstring" where
  "decimal_to_string m e =
     (let ds = digits m; n = int (length ds) + e in
      if 0 < n \<and> n \<le> 21 then take (nat n) ds @ 0x2E # drop (nat n) ds
      else if - 6 < n \<and> n \<le> 0 then [0x30, 0x2E] @ replicate (nat (- n)) 0x30 @ ds
      else exponential ds n)"

definition number_to_string :: "json \<Rightarrow> jsstring" where
  "number_to_string v =
     (case v of
        JNumber n \<Rightarrow> (if n < 0 then [0x2D] else []) @ integer_to_string (nat \<bar>n\<bar>)
      | JDecimal m e \<Rightarrow> (if m < 0 then [0x2D] else []) @ decimal_to_string (nat \<bar>m\<bar>) e
      | _ \<Rightarrow> [])"

subsection \<open>Strings\<close>

definition hex_char :: "nat \<Rightarrow> jschar" where
  "hex_char d = (if d < 10 then of_nat (48 + d) else of_nat (87 + d))"

text \<open>\<^verbatim>\<open>UnicodeEscape\<close>: backslash, \<^verbatim>\<open>u\<close> and four lower-case hexadecimal digits.\<close>

definition unicode_escape :: "jschar \<Rightarrow> jsstring" where
  "unicode_escape c =
     [0x5C, 0x75, hex_char (unat c div 4096), hex_char (unat c div 256 mod 16),
      hex_char (unat c div 16 mod 16), hex_char (unat c mod 16)]"

definition is_high_surrogate :: "jschar \<Rightarrow> bool" where
  "is_high_surrogate c = (0xD800 \<le> c \<and> c \<le> 0xDBFF)"

definition is_low_surrogate :: "jschar \<Rightarrow> bool" where
  "is_low_surrogate c = (0xDC00 \<le> c \<and> c \<le> 0xDFFF)"

text \<open>
  The body of \<^verbatim>\<open>QuoteJSONString\<close>: the two-character escapes for backspace, tab, line
  feed, form feed, carriage return, the double quote and the backslash; a \<^verbatim>\<open>\u\<close> escape
  for any other control character and for a surrogate that is not part of a pair;
  every other code unit as it is.
\<close>

fun quote_chars :: "jsstring \<Rightarrow> jsstring" where
  "quote_chars [] = []"
| "quote_chars (c # cs) =
     (if c = 0x08 then [0x5C, 0x62] @ quote_chars cs
      else if c = 0x09 then [0x5C, 0x74] @ quote_chars cs
      else if c = 0x0A then [0x5C, 0x6E] @ quote_chars cs
      else if c = 0x0C then [0x5C, 0x66] @ quote_chars cs
      else if c = 0x0D then [0x5C, 0x72] @ quote_chars cs
      else if c = 0x22 then [0x5C, 0x22] @ quote_chars cs
      else if c = 0x5C then [0x5C, 0x5C] @ quote_chars cs
      else if c < 0x20 then unicode_escape c @ quote_chars cs
      else if is_high_surrogate c then
        (case cs of
           [] \<Rightarrow> unicode_escape c
         | d # ds \<Rightarrow>
             if is_low_surrogate d then c # d # quote_chars ds
             else unicode_escape c @ quote_chars cs)
      else if is_low_surrogate c then unicode_escape c @ quote_chars cs
      else c # quote_chars cs)"

definition quote_json :: "jsstring \<Rightarrow> jsstring" where
  "quote_json s = 0x22 # quote_chars s @ [0x22]"

subsection \<open>Values\<close>

fun join :: "jsstring \<Rightarrow> jsstring list \<Rightarrow> jsstring" where
  "join sep [] = []"
| "join sep [x] = x"
| "join sep (x # y # ys) = x @ sep @ join sep (y # ys)"

text \<open>
  \<^verbatim>\<open>SerializeJSONProperty\<close> without replacer and indentation: \<open>None\<close> stands for the result
  \<^verbatim>\<open>undefined\<close>. An object leaves out the properties whose value is \<^verbatim>\<open>undefined\<close>; an array
  writes \<^verbatim>\<open>null\<close> for them.
\<close>

fun JSON_stringify :: "json \<Rightarrow> jsstring option" where
  "JSON_stringify JUndefined = None"
| "JSON_stringify JNull = Some (js ''null'')"
| "JSON_stringify (JBool b) = Some (if b then js ''true'' else js ''false'')"
| "JSON_stringify (JNumber n) = Some (number_to_string (JNumber n))"
| "JSON_stringify (JDecimal m e) = Some (number_to_string (JDecimal m e))"
| "JSON_stringify (JString s) = Some (quote_json s)"
| "JSON_stringify (JArray vs) =
     Some (0x5B # join [0x2C]
             (map (\<lambda>v. case JSON_stringify v of None \<Rightarrow> js ''null'' | Some t \<Rightarrow> t) vs) @ [0x5D])"
| "JSON_stringify (JObject kvs) =
     Some (0x7B # join [0x2C]
             (concat (map (\<lambda>(k, v). case JSON_stringify v of
                                        None \<Rightarrow> []
                                      | Some t \<Rightarrow> [quote_json k @ 0x3A # t]) kvs)) @ [0x7D])"

section \<open>JSON.parse\<close>

text \<open>
  A recursive-descent reader of the JSON grammar over code units. Every function takes
  the text that is left and returns what it read with the rest, or \<open>None\<close> where the
  grammar is violated (\<^verbatim>\<open>JSON.parse\<close> then throws a \<^verbatim>\<open>SyntaxError\<close>).
\<close>

definition is_ws :: "jschar \<Rightarrow> bool" where
  "is_ws c = (c = 0x20 \<or> c = 0x09 \<or> c = 0x0A \<or> c = 0x0D)"

definition skip_ws :: "jsstring \<Rightarrow> jsstring" where
  "skip_ws s = dropWhile is_ws s"

subsection \<open>Strings\<close>

definition hex_val :: "jschar \<Rightarrow> nat option" where
  "hex_val c =
     (if 0x30 \<le> c \<and> c \<le> 0x39 then Some (unat c - 48)
      else if 0x61 \<le> c \<and> c \<le> 0x66 then Some (unat c - 87)
      else if 0x41 \<le> c \<and> c \<le> 0x46 then Some (unat c - 55)
      else None)"

definition hex4 :: "jschar \<Rightarrow> jschar \<Rightarrow> jschar \<Rightarrow> jschar \<Rightarrow> jschar option" where
  "hex4 a b c d =
     (case (hex_val a, hex_val b, hex_val c, hex_val d) of
        (Some x, Some y, Some z, Some w) \<Rightarrow> Some (of_nat (4096 * x + 256 * y + 16 * z + w))
      | _ \<Rightarrow> None)"

text \<open>The character after a backslash, other than \<^verbatim>\<open>u\<close>.\<close>

definition unescape :: "jschar \<Rightarrow> jschar option" where
  "unescape e =
     (if e = 0x22 then Some 0x22
      else if e = 0x5C then Some 0x5C
      else if e = 0x2F then Some 0x2F
      else if e = 0x62 then Some 0x08
      else if e = 0x66 then Some 0x0C
      else if e = 0x6E then Some 0x0A
      else if e = 0x72 then Some 0x0D
      else if e = 0x74 then Some 0x09
      else None)"

definition cons_result :: "'a \<Rightarrow> ('a list \<times> 'b) option \<Rightarrow> ('a list \<times> 'b) option" where
  "cons_result c r = (case r of None \<Rightarrow> None | Some (cs, rest) \<Rightarrow> Some (c # cs, rest))"

text \<open>The characters of a string literal after its opening quote, up to and including the
  closing quote.\<close>

fun parse_chars :: "jsstring \<Rightarrow> (jsstring \<times> jsstring) option" where
  "parse_chars [] = None"
| "parse_chars (c # cs) =
     (if c = 0x22 then Some ([], cs)
      else if c = 0x5C then
        (case cs of
           [] \<Rightarrow> None
         | e # es \<Rightarrow>
             if e = 0x75 then
               (case es of
                  h1 # h2 # h3 # h4 # r \<Rightarrow>
                    (case hex4 h1 h2 h3 h4 of
                       None \<Rightarrow> None
                     | Some u \<Rightarrow> cons_result u (parse_chars r))
                | _ \<Rightarrow> None)
             else
               (case unescape e of
                  None \<Rightarrow> None
                | Some u \<Rightarrow> cons_result u (parse_chars es)))
      else if c < 0x20 then None
      else cons_result c (parse_chars cs))"

subsection \<open>Numbers\<close>

fun strip10 :: "nat \<Rightarrow> int \<Rightarrow> nat \<times> int" where
  "strip10 m e = (if e < 0 \<and> m \<noteq> 0 \<and> m mod 10 = 0 then strip10 (m div 10) (e + 1) else (m, e))"

text \<open>The number \<open>\<plusminus> m * 10^e\<close> as a value: an integer where it is one.\<close>

definition mk_number :: "bool \<Rightarrow> nat \<Rightarrow> int \<Rightarrow> json" where
  "mk_number neg m e =
     (let (m', e') = strip10 m e;
          sgn = (if neg then - 1 else 1) in
      if m' = 0 then JNumber 0
      else if 0 \<le> e' then JNumber (sgn * int m' * 10 ^ nat e')
      else JDecimal (sgn * int m') e')"

definition parse_frac :: "jsstring \<Rightarrow> (jsstring \<times> jsstring) option" where
  "parse_frac s =
     (case s of
        [] \<Rightarrow> Some ([], s)
      | c # r \<Rightarrow>
          if c = 0x2E then
            (if takeWhile is_digit r = [] then None
             else Some (takeWhile is_digit r, dropWhile is_digit r))
          else Some ([], s))"

definition parse_sign :: "jsstring \<Rightarrow> bool \<times> jsstring" where
  "parse_sign s =
     (case s of
        [] \<Rightarrow> (False, s)
      | c # r \<Rightarrow> if c = 0x2D then (True, r) else if c = 0x2B then (False, r) else (False, s))"

definition parse_exp :: "jsstring \<Rightarrow> (int \<times> jsstring) option" where
  "parse_exp s =
     (case s of
        [] \<Rightarrow> Some (0, s)
      | c # r \<Rightarrow>
          if c = 0x65 \<or> c = 0x45 then
            (let (eneg, r1) = parse_sign r; ed = takeWhile is_digit r1 in
             if ed = [] then None
             else Some (if eneg then - int (digits_val ed) else int (digits_val ed),
                        dropWhile is_digit r1))
          else Some (0, s))"

text \<open>
  \<^verbatim>\<open>-? (0 | [1-9][0-9]*) (. [0-9]+)? ([eE] [+-]? [0-9]+)?\<close>
\<close>

definition parse_unsigned :: "bool \<Rightarrow> jsstring \<Rightarrow> (json \<times> jsstring) option" where
  "parse_unsigned neg s =
     (let ip = takeWhile is_digit s in
      if ip = [] \<or> (1 < length ip \<and> hd ip = 0x30) then None
      else
        (case parse_frac (dropWhile is_digit s) of
           None \<Rightarrow> None
         | Some (fp, s3) \<Rightarrow>
             (case parse_exp s3 of
                None \<Rightarrow> None
              | Some (ex, s4) \<Rightarrow>
                  Some (mk_number neg (digits_val (ip @ fp)) (ex - int (length fp)), s4))))"

definition parse_number :: "jsstring \<Rightarrow> (json \<times> jsstring) option" where
  "parse_number s =
     (case s of
        [] \<Rightarrow> None
      | c # r \<Rightarrow> if c = 0x2D then parse_unsigned True r else parse_unsigned False s)"

subsection \<open>Values\<close>

definition literal :: "jsstring \<Rightarrow> json \<Rightarrow> jsstring \<Rightarrow> (json \<times> jsstring) option" where
  "literal w v s = (if take (length w) s = w then Some (v, drop (length w) s) else None)"

text \<open>
  The three mutually recursive readers take a bound on the calls still allowed, which
  decreases with every call. \<open>JSON_parse\<close> starts from twice the length of the text and
  one, which is never exhausted: whatever some bound accepts, this bound accepts (lemma
  \<open>JSON_parse_any_bound\<close> below). \<open>parse_elements\<close> and \<open>parse_members\<close> start at the first
  character of an element or of a key, with the values or properties read so far.
\<close>

fun parse_value :: "nat \<Rightarrow> jsstring \<Rightarrow> (json \<times> jsstring) option"
  and parse_elements :: "nat \<Rightarrow> json list \<Rightarrow> jsstring \<Rightarrow> (json \<times> jsstring) option"
  and parse_members :: "nat \<Rightarrow> (jsstring \<times> json) list \<Rightarrow> jsstring \<Rightarrow> (json \<times> jsstring) option"
where
  "parse_value 0 s = None"
| "parse_value (Suc n) s =
     (case s of
        [] \<Rightarrow> None
      | c # cs \<Rightarrow>
          if c = 0x7B then
            (case skip_ws cs of
               [] \<Rightarrow> None
             | d # ds \<Rightarrow> if d = 0x7D then Some (JObject [], ds) else parse_members n [] (d # ds))
          else if c = 0x5B then
            (case skip_ws cs of
               [] \<Rightarrow> None
             | d # ds \<Rightarrow> if d = 0x5D then Some (JArray [], ds) else parse_elements n [] (d # ds))
          else if c = 0x22 then
            (case parse_chars cs of None \<Rightarrow> None | Some (str, r) \<Rightarrow> Some (JString str, r))
          else if c = 0x74 then literal (js ''true'') (JBool True) s
          else if c = 0x66 then literal (js ''false'') (JBool False) s
          else if c = 0x6E then literal (js ''null'') JNull s
          else parse_number s)"
| "parse_elements 0 acc s = None"
| "parse_elements (Suc n) acc s =
     (case parse_value n s of
        None \<Rightarrow> None
      | Some (v, r) \<Rightarrow>
          (case skip_ws r of
             [] \<Rightarrow> None
           | c # cs \<Rightarrow>
               if c = 0x2C then parse_elements n (acc @ [v]) (skip_ws cs)
               else if c = 0x5D then Some (JArray (acc @ [v]), cs)
               else None))"
| "parse_members 0 acc s = None"
| "parse_members (Suc n) acc s =
     (case s of
        [] \<Rightarrow> None
      | q # cs \<Rightarrow>
          if q = 0x22 then
            (case parse_chars cs of
               None \<Rightarrow> None
             | Some (k, r) \<Rightarrow>
                 (case skip_ws r of
                    [] \<Rightarrow> None
                  | d # ds \<Rightarrow>
                      if d = 0x3A then
                        (case parse_value n (skip_ws ds) of
                           None \<Rightarrow> None
                         | Some (v, r2) \<Rightarrow>
                             (case skip_ws r2 of
                                [] \<Rightarrow> None
                              | e # es \<Rightarrow>
                                  if e = 0x2C then parse_members n (obj_set k v acc) (skip_ws es)
                                  else if e = 0x7D then Some (JObject (obj_set k v acc), es)
                                  else None))
                      else None))
          else None)"

text \<open>\<^verbatim>\<open>JSON.parse(text)\<close>: one value between optional white space, and nothing else.\<close>

definition JSON_parse :: "jsstring \<Rightarrow> error + json" where
  "JSON_parse s =
     (case parse_value (2 * length s + 1) (skip_ws s) of
        None \<Rightarrow> Inl SyntaxError
      | Some (v, r) \<Rightarrow> if skip_ws r = [] then Inr v else Inl SyntaxError)"

section \<open>The host's URI type and the collaborators\<close>

text \<open>
  Modelled from the spec: the host editor supplies the URI type, with scheme, path and
  query fields and immutable-with-replace semantics through its \<^verbatim>\<open>with\<close> operation. A URI is
  the record of its five components; \<^verbatim>\<open>uri.with(change)\<close> replaces the components the
  change names and keeps the others (\<open>None\<close> is a component the change leaves out or gives
  as \<^verbatim>\<open>undefined\<close>). The module changes the scheme, the path and the query only. The
  editor's own checks on a URI it constructs are not part of this.
\<close>

record Uri =
  scheme :: jsstring
  authority :: jsstring
  path :: jsstring
  query :: jsstring
  fragment :: jsstring

definition Uri_with :: "Uri \<Rightarrow> jsstring option \<Rightarrow> jsstring option \<Rightarrow> jsstring option \<Rightarrow> Uri" where
  "Uri_with uri scheme' path' query' =
     uri\<lparr>scheme := (case scheme' of None \<Rightarrow> scheme uri | Some s \<Rightarrow> s),
         path := (case path' of None \<Rightarrow> path uri | Some p \<Rightarrow> p),
         query := (case query' of None \<Rightarrow> query uri | Some q \<Rightarrow> q)\<rparr>"

text \<open>
  What the platform supplies, taken as parameters: the file-system path of a URI
  (\<^verbatim>\<open>uri.fsPath\<close>) and the functions of Node's \<^verbatim>\<open>path\<close> module that the module calls,
  imported as \<^verbatim>\<open>pathUtils\<close>: the native \<^verbatim>\<open>resolve\<close>, \<^verbatim>\<open>dirname\<close> and \<^verbatim>\<open>basename\<close>, and
  \<^verbatim>\<open>posix.resolve\<close>.
\<close>

record Platform =
  fsPath :: "Uri \<Rightarrow> jsstring"
  pathUtils_resolve :: "jsstring \<Rightarrow> jsstring \<Rightarrow> jsstring"
  pathUtils_posix_resolve :: "jsstring \<Rightarrow> jsstring \<Rightarrow> jsstring"
  pathUtils_dirname :: "jsstring \<Rightarrow> jsstring"
  pathUtils_basename :: "jsstring \<Rightarrow> jsstring"

text \<open>
  Modelled from the spec: the pull request model, a class declared outside this file,
  exposes \<^verbatim>\<open>number\<close> and \<^verbatim>\<open>githubRepository.remote.remoteName\<close>.
\<close>

record Remote =
  remoteName :: jsstring

record GitHubRepository =
  remote :: Remote

record PullRequestModel =
  number :: int
  githubRepository :: GitHubRepository

text \<open>
  Modelled from the spec: \<^verbatim>\<open>GitChangeType\<close> is the enumeration of change types (added,
  modified, deleted, renamed and so on); its declaration, in \<^verbatim>\<open>./file\<close>, is not among the
  sources. At run time a member of a TypeScript enumeration is a number or a string.
\<close>

datatype GitChangeType = NumericMember int | StringMember jsstring

definition enum_value :: "GitChangeType \<Rightarrow> json" where
  "enum_value m = (case m of NumericMember n \<Rightarrow> JNumber n | StringMember s \<Rightarrow> JString s)"

record GitUriOptions =
  replaceFileExtension :: "bool option"
  submoduleOf :: "jsstring option"
  base :: bool

text \<open>The outcome of a promise once it has settled.\<close>

datatype 'a promise = Fulfilled 'a | Rejected error

type_synonym bytes = "8 word list"

text \<open>
  Modelled from the spec: the repository collaborator has \<^verbatim>\<open>getObjectDetails(ref, path)\<close>
  giving the object, \<^verbatim>\<open>detectObjectType(object)\<close> giving the MIME type and
  \<^verbatim>\<open>buffer(ref, path)\<close> giving the bytes. The module awaits each call in place, so a call is
  given by what the \<^verbatim>\<open>await\<close> expression does: it throws (the call threw or its promise
  rejected) or it has a value. The reference comes from parsed JSON and can be any value.
\<close>

record Repository =
  getObjectDetails :: "json \<Rightarrow> jsstring \<Rightarrow> error + jsstring"
  detectObjectType :: "jsstring \<Rightarrow> error + jsstring"
  buffer :: "json \<Rightarrow> jsstring \<Rightarrow> error + bytes"

text \<open>
  Modelled from the spec: the temporary-state store has \<^verbatim>\<open>write(directory, basename, bytes)\<close>
  giving a URI, and the file write is one of the operations a caller waits for. The module
  does not await the call in place, so the call is given in two stages: it throws, or it
  returns a promise, which settles with the URI written (or with \<^verbatim>\<open>undefined\<close>) or rejects.
\<close>

type_synonym TemporaryState = "jsstring \<Rightarrow> jsstring \<Rightarrow> bytes \<Rightarrow> error + Uri option promise"

section \<open>src/common/uri.ts\<close>

text \<open>
  The parameter interfaces \<^verbatim>\<open>ReviewUriParams\<close>, \<^verbatim>\<open>PRUriParams\<close>, \<^verbatim>\<open>GitHubUriParams\<close> and
  \<^verbatim>\<open>FileChangeNodeUriParams\<close> are types of plain objects: a parameter object is the \<open>JObject\<close>
  of its object literal, and what a \<^verbatim>\<open>from...\<close> function returns is the value the parser
  built, under a type assertion that does nothing at run time.
\<close>

definition fromReviewUri :: "jsstring \<Rightarrow> error + json" where
  "fromReviewUri query' = JSON_parse query'"

text \<open>\<^verbatim>\<open>try { return JSON.parse(uri.query) } catch (e) { }\<close>: after the empty handler the
  function ends and returns \<^verbatim>\<open>undefined\<close>.\<close>

definition fromPRUri :: "Uri \<Rightarrow> error + json" where
  "fromPRUri uri = (case JSON_parse (query uri) of Inl e \<Rightarrow> Inr JUndefined | Inr v \<Rightarrow> Inr v)"

definition fromGitHubURI :: "Uri \<Rightarrow> error + json" where
  "fromGitHubURI uri = (case JSON_parse (query uri) of Inl e \<Rightarrow> Inr JUndefined | Inr v \<Rightarrow> Inr v)"

definition ImageMimetypes :: "jsstring list" where
  "ImageMimetypes =
     [js ''image/png'', js ''image/gif'', js ''image/jpeg'', js ''image/webp'', js ''image/tiff'',
      js ''image/bmp'']"

text \<open>A string argument of a \<^verbatim>\<open>path\<close> function: Node throws a \<^verbatim>\<open>TypeError\<close> for anything else.\<close>

definition string_arg :: "json \<Rightarrow> error + jsstring" where
  "string_arg v = (case v of JString s \<Rightarrow> Inr s | _ \<Rightarrow> Inl TypeError)"

text \<open>
  The body of the \<^verbatim>\<open>try\<close> block of \<^verbatim>\<open>asImageDataURI\<close>, as the error its \<^verbatim>\<open>catch\<close> receives
  or the value its \<^verbatim>\<open>return\<close> statements give: nothing, or what \<^verbatim>\<open>TemporaryState.write\<close>
  returned. The returned promise is not awaited inside the block.
\<close>

definition asImageDataURI_try ::
    "Platform \<Rightarrow> TemporaryState \<Rightarrow> Uri \<Rightarrow> Repository \<Rightarrow> error + Uri option promise" where
  "asImageDataURI_try platform TemporaryState_write uri repository =
     (case JSON_parse (query uri) of
        Inl e \<Rightarrow> Inl e
      | Inr parsed \<Rightarrow>
     (case get_prop parsed (js ''commit'') of
        Inl e \<Rightarrow> Inl e
      | Inr commit \<Rightarrow>
     (case get_prop parsed (js ''baseCommit'') of
        Inl e \<Rightarrow> Inl e
      | Inr baseCommit \<Rightarrow>
     (case get_prop parsed (js ''headCommit'') of
        Inl e \<Rightarrow> Inl e
      | Inr headCommit \<Rightarrow>
     (case get_prop parsed (js ''isBase'') of
        Inl e \<Rightarrow> Inl e
      | Inr isBase \<Rightarrow>
     (case get_prop parsed (js ''path'') of
        Inl e \<Rightarrow> Inl e
      | Inr path' \<Rightarrow>
     (let ref = (if scheme uri = js ''review'' then commit
                 else if truthy isBase then baseCommit else headCommit) in
      case getObjectDetails repository ref (fsPath platform uri) of
        Inl e \<Rightarrow> Inl e
      | Inr object \<Rightarrow>
     (case detectObjectType repository object of
        Inl e \<Rightarrow> Inl e
      | Inr mimetype \<Rightarrow>
          if mimetype = js ''text/plain'' then Inr (Fulfilled None)
          else if mimetype \<in> set ImageMimetypes then
            (case buffer repository ref (fsPath platform uri) of
               Inl e \<Rightarrow> Inl e
             | Inr contents \<Rightarrow>
            (case string_arg path' of
               Inl e \<Rightarrow> Inl e
             | Inr p \<Rightarrow>
                 TemporaryState_write (pathUtils_dirname platform p) (pathUtils_basename platform p)
                   contents))
          else Inr (Fulfilled None)))))))))"

text \<open>The \<^verbatim>\<open>catch\<close> block returns nothing for whatever was thrown inside the \<^verbatim>\<open>try\<close> block;
  a promise returned from there settles the result.\<close>

definition asImageDataURI ::
    "Platform \<Rightarrow> TemporaryState \<Rightarrow> Uri \<Rightarrow> Repository \<Rightarrow> Uri option promise" where
  "asImageDataURI platform TemporaryState_write uri repository =
     (case asImageDataURI_try platform TemporaryState_write uri repository of
        Inl err \<Rightarrow> Fulfilled None
      | Inr result \<Rightarrow> result)"

definition optional :: "jsstring option \<Rightarrow> json" where
  "optional s = (case s of None \<Rightarrow> JUndefined | Some x \<Rightarrow> JString x)"

definition toReviewUri ::
    "Uri \<Rightarrow> jsstring option \<Rightarrow> jsstring option \<Rightarrow> jsstring \<Rightarrow> bool \<Rightarrow> GitUriOptions \<Rightarrow> Uri \<Rightarrow> Uri" where
  "toReviewUri uri filePath ref commit isOutdated options rootUri =
     (let params = JObject
            [(js ''path'', JString (case filePath of
                                      None \<Rightarrow> path uri
                                    | Some p \<Rightarrow> if truthy (JString p) then p else path uri)),
             (js ''ref'', optional ref),
             (js ''commit'', JString commit),
             (js ''base'', JBool (base options)),
             (js ''isOutdated'', JBool isOutdated),
             (js ''rootPath'', JString (path rootUri))];
          path' = path uri;
          path'' = (if replaceFileExtension options = Some True then path' @ js ''.git'' else path')
      in Uri_with uri (Some (js ''review'')) (Some path'') (JSON_stringify params))"

definition toResourceUri :: "Uri \<Rightarrow> int \<Rightarrow> jsstring \<Rightarrow> GitChangeType \<Rightarrow> Uri" where
  "toResourceUri uri prNumber fileName status =
     (let params = JObject
            [(js ''prNumber'', JNumber prNumber),
             (js ''fileName'', JString fileName),
             (js ''status'', enum_value status)]
      in Uri_with uri (Some (js ''filechange'')) None (JSON_stringify params))"

text \<open>
  \<^verbatim>\<open>uri.query ? JSON.parse(uri.query) : undefined\<close> inside the same \<^verbatim>\<open>try\<close> and empty
  \<^verbatim>\<open>catch\<close>. The parser is an argument of \<open>fromFileChangeNodeUri_with\<close>, so that a
  statement can say when the result does not depend on it.
\<close>

definition fromFileChangeNodeUri_with :: "(jsstring \<Rightarrow> error + json) \<Rightarrow> Uri \<Rightarrow> error + json" where
  "fromFileChangeNodeUri_with parse uri =
     (if query uri \<noteq> [] then (case parse (query uri) of Inl e \<Rightarrow> Inr JUndefined | Inr v \<Rightarrow> Inr v)
      else Inr JUndefined)"

definition fromFileChangeNodeUri :: "Uri \<Rightarrow> error + json" where
  "fromFileChangeNodeUri uri = fromFileChangeNodeUri_with JSON_parse uri"

definition toPRUri ::
    "Uri \<Rightarrow> PullRequestModel \<Rightarrow> jsstring \<Rightarrow> jsstring \<Rightarrow> jsstring \<Rightarrow> bool \<Rightarrow> GitChangeType \<Rightarrow> Uri" where
  "toPRUri uri pullRequestModel baseCommit headCommit fileName base' status =
     (let params = JObject
            [(js ''baseCommit'', JString baseCommit),
             (js ''headCommit'', JString headCommit),
             (js ''isBase'', JBool base'),
             (js ''fileName'', JString fileName),
             (js ''prNumber'', JNumber (number pullRequestModel)),
             (js ''status'', enum_value status),
             (js ''remoteName'', JString (remoteName (remote (githubRepository pullRequestModel))))];
          path' = path uri
      in Uri_with uri (Some (js ''pr'')) (Some path') (JSON_stringify params))"

definition Schemas_file :: jsstring where
  "Schemas_file = js ''file''"

definition resolvePath :: "Platform \<Rightarrow> Uri \<Rightarrow> jsstring \<Rightarrow> jsstring" where
  "resolvePath platform from to =
     (if scheme from = Schemas_file then pathUtils_resolve platform (fsPath platform from) to
      else pathUtils_posix_resolve platform (path from) to)"

section \<open>Notions used in the proofs\<close>

text \<open>The recursive equations of the digit functions rewrite their own right-hand sides;
  they are applied by hand.\<close>

declare digits.simps [simp del] strip_zeros.simps [simp del] strip10.simps [simp del]

text \<open>A text after which a number literal cannot go on.\<close>

definition number_end :: "jsstring \<Rightarrow> bool" where
  "number_end rest =
     (case rest of
        [] \<Rightarrow> True
      | c # r \<Rightarrow> \<not> is_digit c \<and> c \<noteq> 0x2E \<and> c \<noteq> 0x65 \<and> c \<noteq> 0x45)"

text \<open>The values every parameter object of the module holds, besides \<^verbatim>\<open>undefined\<close>.\<close>

definition scalar :: "json \<Rightarrow> bool" where
  "scalar v =
     (case v of
        JNull \<Rightarrow> True
      | JBool b \<Rightarrow> True
      | JNumber n \<Rightarrow> True
      | JString s \<Rightarrow> True
      | _ \<Rightarrow> False)"

definition scalar_or_undefined :: "jsstring \<times> json \<Rightarrow> bool" where
  "scalar_or_undefined kv = (scalar (snd kv) \<or> snd kv = JUndefined)"

definition plain_key :: "jsstring \<times> json \<Rightarrow> bool" where
  "plain_key kv = (array_index (fst kv) = None)"

definition is_defined :: "jsstring \<times> json \<Rightarrow> bool" where
  "is_defined kv = (snd kv \<noteq> JUndefined)"

text \<open>One property as \<open>JSON_stringify\<close> writes it.\<close>

definition member_text :: "jsstring \<times> json \<Rightarrow> jsstring" where
  "member_text kv =
     quote_json (fst kv) @ 0x3A # (case JSON_stringify (snd kv) of None \<Rightarrow> [] | Some t \<Rightarrow> t)"

text \<open>Reading a property of what a decoder returned; an exception of the decoder or of the
  read is passed on.\<close>

definition field_of :: "error + json \<Rightarrow> jsstring \<Rightarrow> error + json" where
  "field_of r k = (case r of Inl e \<Rightarrow> Inl e | Inr obj \<Rightarrow> get_prop obj k)"

section \<open>Code units\<close>

lemma unat_of_nat16: "n < 65536 \<Longrightarrow> unat (of_nat n :: jschar) = n"
  by (simp add: unat_of_nat del: of_nat_add)

lemma of_char_lt: "(of_char x :: nat) < 256"
  by (metis of_char_mod_256 mod_less_divisor zero_less_numeral)

lemma of_char_inject16: "(of_char x :: jschar) = of_char y \<longleftrightarrow> x = y"
proof
  assume "(of_char x :: jschar) = of_char y"
  then have "unat (of_nat (of_char x) :: jschar) = unat (of_nat (of_char y) :: jschar)"
    by (simp add: of_nat_of_char)
  moreover have "(of_char x :: nat) < 65536" "(of_char y :: nat) < 65536"
    using of_char_lt [of x] of_char_lt [of y] by linarith+
  ultimately have "(of_char x :: nat) = of_char y" by (simp only: unat_of_nat16)
  then show "x = y" by simp
qed simp

lemma js_inject: "js a = js b \<longleftrightarrow> a = b"
proof -
  have "inj (of_char :: char \<Rightarrow> jschar)" by (rule injI) (simp add: of_char_inject16)
  then show ?thesis unfolding js_def by (simp add: inj_map_eq_map)
qed

lemma unat_digit_char: "d < 10 \<Longrightarrow> unat (digit_char d) = 48 + d"
  unfolding digit_char_def by (rule unat_of_nat16) simp

lemma is_digit_digit_char: "d < 10 \<Longrightarrow> is_digit (digit_char d)"
  unfolding is_digit_def by (simp add: word_le_nat_alt unat_digit_char)

lemma digit_val_digit_char: "d < 10 \<Longrightarrow> digit_val (digit_char d) = d"
  unfolding digit_val_def by (simp add: unat_digit_char)

lemma unat_hex_char: "d < 16 \<Longrightarrow> unat (hex_char d) = (if d < 10 then 48 + d else 87 + d)"
  unfolding hex_char_def by (simp add: unat_of_nat16 del: of_nat_add)

lemma hex_val_hex_char: "d < 16 \<Longrightarrow> hex_val (hex_char d) = Some d"
  unfolding hex_val_def by (simp add: word_le_nat_alt unat_hex_char)

section \<open>Strings survive \<open>quote_json\<close> and \<open>parse_chars\<close>\<close>

lemma hex4_unicode:
  "hex4 (hex_char (unat c div 4096)) (hex_char (unat c div 256 mod 16))
        (hex_char (unat c div 16 mod 16)) (hex_char (unat c mod 16)) = Some (c :: jschar)"
proof -
  define n where "n = unat c"
  have lt: "n < 65536" unfolding n_def using unsigned_less [of c] by simp
  then have a: "n div 4096 < 16" by simp
  have 1: "n = 16 * (n div 16) + n mod 16" by simp
  have 2: "n div 16 = 16 * (n div 256) + n div 16 mod 16"
    using div_mult2_eq [of n 16 16] by simp
  have 3: "n div 256 = 16 * (n div 4096) + n div 256 mod 16"
    using div_mult2_eq [of n 256 16] by simp
  have "4096 * (n div 4096) + 256 * (n div 256 mod 16) + 16 * (n div 16 mod 16) + n mod 16 = n"
    using 1 2 3 by linarith
  then show ?thesis
    unfolding hex4_def n_def [symmetric] using a by (simp add: hex_val_hex_char n_def)
qed

lemma parse_chars_unicode: "parse_chars (unicode_escape c @ r) = cons_result c (parse_chars r)"
  unfolding unicode_escape_def by (simp add: hex4_unicode)

lemma low_surrogate_plain: "is_low_surrogate d \<Longrightarrow> d \<noteq> 0x22 \<and> d \<noteq> 0x5C \<and> \<not> d < 0x20"
  unfolding is_low_surrogate_def by (auto simp add: word_le_nat_alt word_less_nat_alt)

lemma parse_chars_plain:
  "c \<noteq> 0x22 \<Longrightarrow> c \<noteq> 0x5C \<Longrightarrow> \<not> c < 0x20 \<Longrightarrow> parse_chars (c # r) = cons_result c (parse_chars r)"
  by simp

lemma parse_chars_quote: "parse_chars (quote_chars s @ 0x22 # rest) = Some (s, rest)"
proof (induction s rule: length_induct)
  case (1 s)
  show ?case
  proof (cases s)
    case Nil
    then show ?thesis by simp
  next
    case (Cons c cs)
    have IH: "parse_chars (quote_chars cs @ 0x22 # rest) = Some (cs, rest)"
      using 1 Cons by simp
    have uni: "parse_chars (unicode_escape c @ quote_chars cs @ 0x22 # rest) = Some (c # cs, rest)"
      using IH by (simp add: parse_chars_unicode cons_result_def)
    show ?thesis
    proof (cases "c = 0x08 \<or> c = 0x09 \<or> c = 0x0A \<or> c = 0x0C \<or> c = 0x0D \<or> c = 0x22 \<or> c = 0x5C")
      case True
      then show ?thesis
        using IH Cons by (elim disjE) (simp_all add: cons_result_def unescape_def)
    next
      case special: False
      show ?thesis
      proof (cases "c < 0x20")
        case True
        then show ?thesis using special uni Cons by simp
      next
        case printable: False
        have plain: "parse_chars (c # r) = cons_result c (parse_chars r)" for r
          using special printable by (intro parse_chars_plain) simp_all
        show ?thesis
        proof (cases "is_high_surrogate c")
          case high: True
          show ?thesis
          proof (cases cs)
            case Nil
            then show ?thesis using special printable high uni Cons by simp
          next
            case cs: (Cons d ds)
            show ?thesis
            proof (cases "is_low_surrogate d")
              case True
              have "parse_chars (quote_chars ds @ 0x22 # rest) = Some (ds, rest)"
                using 1 Cons cs by simp
              moreover have "parse_chars (d # r) = cons_result d (parse_chars r)" for r
                using low_surrogate_plain [OF True] by (intro parse_chars_plain) simp_all
              moreover have "quote_chars s = c # d # quote_chars ds"
                using special printable high True Cons cs by simp
              ultimately show ?thesis
                using Cons cs by (simp only: plain append_Cons cons_result_def option.case prod.case)
            next
              case False
              then show ?thesis using special printable high uni Cons cs by simp
            qed
          qed
        next
          case nothigh: False
          show ?thesis
          proof (cases "is_low_surrogate c")
            case True
            then show ?thesis using special printable nothigh uni Cons by simp
          next
            case False
            then have "quote_chars s = c # quote_chars cs"
              using special printable nothigh Cons by simp
            then show ?thesis
              using IH Cons by (simp only: plain append_Cons cons_result_def option.case prod.case)
          qed
        qed
      qed
    qed
  qed
qed

section \<open>Numbers survive \<open>number_to_string\<close> and \<open>parse_number\<close>\<close>

lemma digits_val_snoc: "digits_val (xs @ [c]) = 10 * digits_val xs + digit_val c"
  by (simp add: digits_val_def)

lemma digits_val_digits: "digits_val (digits n) = n"
proof (induction n rule: digits.induct)
  case (1 n)
  show ?case
  proof (cases "n < 10")
    case True
    then show ?thesis by (simp add: digits.simps [of n] digits_val_def digit_val_digit_char)
  next
    case False
    then show ?thesis
      using 1 by (simp add: digits.simps [of n] digits_val_snoc digit_val_digit_char)
  qed
qed

lemma digits_all: "list_all is_digit (digits n)"
proof (induction n rule: digits.induct)
  case (1 n)
  show ?case
  proof (cases "n < 10")
    case True
    then show ?thesis by (simp add: digits.simps [of n] is_digit_digit_char)
  next
    case False
    then show ?thesis using 1 by (simp add: digits.simps [of n] is_digit_digit_char)
  qed
qed

lemma digits_nonempty: "digits n \<noteq> []"
  by (simp add: digits.simps [of n])

lemma digit_char_zero: "d < 10 \<Longrightarrow> digit_char d = 0x30 \<longleftrightarrow> d = 0"
proof
  assume "d < 10" "digit_char d = 0x30"
  then have "unat (digit_char d) = unat (0x30 :: jschar)" by simp
  then show "d = 0" using \<open>d < 10\<close> by (simp add: unat_digit_char)
next
  assume "d = 0" then show "digit_char d = 0x30" by (simp add: digit_char_def)
qed

lemma hd_digits: "n \<noteq> 0 \<Longrightarrow> hd (digits n) \<noteq> 0x30"
proof (induction n rule: digits.induct)
  case (1 n)
  show ?case
  proof (cases "n < 10")
    case True
    then show ?thesis using 1(2) by (simp add: digits.simps [of n] digit_char_zero)
  next
    case False
    then have "n div 10 \<noteq> 0" by simp
    then show ?thesis using False 1 by (simp add: digits.simps [of n] digits_nonempty)
  qed
qed

lemma length_digits_one: "1 < length (digits n) \<Longrightarrow> n \<noteq> 0"
  by (cases "n = 0") (simp_all add: digits.simps [of 0])

lemma takeWhile_digits: "number_end rest \<Longrightarrow> takeWhile is_digit (digits n @ rest) = digits n"
  using digits_all [of n]
  by (cases rest) (simp_all add: takeWhile_append2 list_all_iff number_end_def)

lemma dropWhile_digits: "number_end rest \<Longrightarrow> dropWhile is_digit (digits n @ rest) = rest"
  using digits_all [of n]
  by (cases rest) (simp_all add: dropWhile_append2 list_all_iff number_end_def)

lemma parse_frac_end: "number_end rest \<Longrightarrow> parse_frac rest = Some ([], rest)"
  by (cases rest) (simp_all add: parse_frac_def number_end_def)

lemma parse_exp_end: "number_end rest \<Longrightarrow> parse_exp rest = Some (0, rest)"
  by (cases rest) (simp_all add: parse_exp_def number_end_def)

lemma is_digit_not_minus: "is_digit c \<Longrightarrow> c \<noteq> 0x2D"
  by (auto simp add: is_digit_def)

lemma digits_cons: "\<exists>d ds. digits n = d # ds \<and> is_digit d \<and> list_all is_digit ds"
  using digits_all [of n] digits_nonempty [of n] by (cases "digits n") simp_all

lemma mk_number_nonneg:
  "0 \<le> e \<Longrightarrow> mk_number neg m e = JNumber ((if neg then - 1 else 1) * int m * 10 ^ nat e)"
  by (simp add: mk_number_def strip10.simps [of m e])

lemma parse_unsigned_digits:
  assumes "number_end rest"
  shows "parse_unsigned neg (digits m @ rest) = Some (JNumber (if neg then - int m else int m), rest)"
proof -
  have lead: "\<not> (1 < length (digits m) \<and> hd (digits m) = 0x30)"
    using hd_digits [of m] length_digits_one [of m] by blast
  show ?thesis
    using lead assms digits_nonempty [of m]
    unfolding parse_unsigned_def
    by (simp add: Let_def takeWhile_digits dropWhile_digits parse_frac_end parse_exp_end
          mk_number_nonneg digits_val_digits)
qed

lemma strip_zeros_digits:
  "m \<noteq> 0 \<Longrightarrow> length (digits (strip_zeros m)) \<le> length (digits m)
     \<and> strip_zeros m * 10 ^ (length (digits m) - length (digits (strip_zeros m))) = m"
proof (induction m rule: strip_zeros.induct)
  case (1 n)
  show ?case
  proof (cases "n mod 10 = 0")
    case True
    then have nz: "n div 10 \<noteq> 0" and ge: "\<not> n < 10" and n: "10 * (n div 10) = n"
      using 1(2) by presburger+
    have IH: "length (digits (strip_zeros (n div 10))) \<le> length (digits (n div 10))"
      "strip_zeros (n div 10) * 10 ^ (length (digits (n div 10)) - length (digits (strip_zeros (n div 10)))) = n div 10"
      using 1(1) 1(2) True nz by simp_all
    have sz: "strip_zeros n = strip_zeros (n div 10)"
      using True 1(2) by (simp add: strip_zeros.simps [of n])
    have len: "length (digits n) = Suc (length (digits (n div 10)))"
      using ge by (simp add: digits.simps [of n])
    have "strip_zeros (n div 10) * 10 ^ (Suc (length (digits (n div 10))) - length (digits (strip_zeros (n div 10))))
          = 10 * (strip_zeros (n div 10) * 10 ^ (length (digits (n div 10)) - length (digits (strip_zeros (n div 10)))))"
      using IH(1) by (simp add: Suc_diff_le)
    then show ?thesis using IH n by (simp add: sz len)
  next
    case False
    then show ?thesis by (simp add: strip_zeros.simps [of n])
  qed
qed

lemma is_digit_consts: "\<not> is_digit 0x2E" "\<not> is_digit 0x65" "\<not> is_digit 0x2B" "\<not> is_digit 0x2D"
  by (simp_all add: is_digit_def)

lemma parse_exp_plus:
  "number_end rest \<Longrightarrow> parse_exp (0x65 # 0x2B # digits x @ rest) = Some (int x, rest)"
  by (simp add: parse_exp_def parse_sign_def takeWhile_digits dropWhile_digits digits_nonempty
        digits_val_digits)

lemma parse_unsigned_exponential:
  assumes "number_end rest" "m \<noteq> 0"
  shows "parse_unsigned neg (exponential (digits (strip_zeros m)) (int (length (digits m))) @ rest)
           = Some (JNumber (if neg then - int m else int m), rest)"
proof -
  define s where "s = strip_zeros m"
  define L where "L = length (digits m)"
  obtain d ds where d: "digits s = d # ds" "is_digit d" "list_all is_digit ds"
    using digits_cons by blast
  have k: "Suc (length ds) \<le> L" and val: "s * 10 ^ (L - Suc (length ds)) = m"
    using strip_zeros_digits [OF assms(2)] unfolding s_def [symmetric] L_def [symmetric] d by simp_all
  have dv: "digits_val (d # ds) = s" using digits_val_digits [of s] d by simp
  have ex: "parse_exp (0x65 # 0x2B # digits (L - 1) @ rest) = Some (int (L - 1), rest)"
    by (rule parse_exp_plus [OF assms(1)])
  have e: "0 \<le> int (L - 1) - int (length ds)" using k by simp
  have ne: "nat (int (L - 1) - int (length ds)) = L - Suc (length ds)" using k by simp
  have res: "mk_number neg s (int (L - 1) - int (length ds)) = JNumber (if neg then - int m else int m)"
    unfolding mk_number_nonneg [OF e] ne using arg_cong [OF val, of int] by simp
  have shape: "exponential (digits s) (int L) = (if ds = [] then [d] else d # 0x2E # ds) @ [0x65, 0x2B] @ digits (L - 1)"
    using k unfolding exponential_def d by (simp add: nat_diff_distrib')
  show ?thesis
  proof (cases "ds = []")
    case True
    then show ?thesis
      unfolding s_def [symmetric] L_def [symmetric] shape parse_unsigned_def
      using d(2) ex res dv by (simp add: Let_def is_digit_consts parse_frac_def)
  next
    case False
    have tw: "takeWhile is_digit (ds @ 0x65 # r) = ds" "dropWhile is_digit (ds @ 0x65 # r) = 0x65 # r" for r
      using d(3) by (simp_all add: takeWhile_append2 dropWhile_append2 list_all_iff is_digit_consts)
    show ?thesis
      unfolding s_def [symmetric] L_def [symmetric] shape parse_unsigned_def
      using False d(2) ex res dv by (simp add: Let_def is_digit_consts parse_frac_def tw)
  qed
qed

lemma integer_to_string_head: "\<exists>d r. integer_to_string m = d # r \<and> is_digit d"
proof -
  obtain d ds where "digits m = d # ds" "is_digit d" using digits_cons by blast
  moreover obtain d' ds' where "digits (strip_zeros m) = d' # ds'" "is_digit d'" using digits_cons by blast
  ultimately show ?thesis by (simp add: integer_to_string_def exponential_def)
qed

lemma parse_unsigned_integer:
  assumes "number_end rest"
  shows "parse_unsigned neg (integer_to_string m @ rest) = Some (JNumber (if neg then - int m else int m), rest)"
proof (cases "m < 10 ^ 21")
  case True
  then show ?thesis by (simp add: integer_to_string_def parse_unsigned_digits [OF assms])
next
  case False
  then have "m \<noteq> 0" by auto
  then show ?thesis using False by (simp add: integer_to_string_def parse_unsigned_exponential [OF assms])
qed

lemma parse_number_roundtrip:
  assumes "number_end rest"
  shows "parse_number (number_to_string (JNumber n) @ rest) = Some (JNumber n, rest)"
proof (cases "n < 0")
  case True
  then show ?thesis
    by (simp add: number_to_string_def parse_number_def parse_unsigned_integer [OF assms])
next
  case False
  obtain d r where h: "integer_to_string (nat \<bar>n\<bar>) = d # r" "is_digit d"
    using integer_to_string_head by blast
  have "parse_unsigned False (integer_to_string (nat \<bar>n\<bar>) @ rest) = Some (JNumber n, rest)"
    using False by (simp add: parse_unsigned_integer [OF assms])
  then show ?thesis
    using False h is_digit_not_minus [OF h(2)] by (simp add: number_to_string_def parse_number_def)
qed

section \<open>Scalar values\<close>

lemma is_ws_consts:
  "\<not> is_ws 0x22" "\<not> is_ws 0x2C" "\<not> is_ws 0x3A" "\<not> is_ws 0x7B" "\<not> is_ws 0x7D" "\<not> is_ws 0x2D"
  "\<not> is_ws 0x6E" "\<not> is_ws 0x74" "\<not> is_ws 0x66"
  by (simp_all add: is_ws_def)

lemma is_digit_not_ws: "is_digit c \<Longrightarrow> \<not> is_ws c"
  by (auto simp add: is_digit_def is_ws_def)

lemma skip_ws_cons: "\<not> is_ws c \<Longrightarrow> skip_ws (c # r) = c # r"
  by (simp add: skip_ws_def)

lemma number_end_sep: "number_end (0x2C # r)" "number_end (0x7D # r)"
  by (simp_all add: number_end_def is_digit_def)

lemma is_digit_dispatch:
  "is_digit c \<Longrightarrow> c \<noteq> 0x7B \<and> c \<noteq> 0x5B \<and> c \<noteq> 0x22 \<and> c \<noteq> 0x74 \<and> c \<noteq> 0x66 \<and> c \<noteq> 0x6E"
  by (auto simp add: is_digit_def)

lemma number_to_string_head:
  "\<exists>c r. number_to_string (JNumber n) = c # r \<and> (c = 0x2D \<or> is_digit c)"
proof -
  obtain d r where "integer_to_string (nat \<bar>n\<bar>) = d # r" "is_digit d"
    using integer_to_string_head by blast
  then show ?thesis by (simp add: number_to_string_def)
qed

lemma parse_value_number:
  assumes "number_end rest"
  shows "parse_value (Suc n) (number_to_string (JNumber i) @ rest) = Some (JNumber i, rest)"
proof -
  obtain c r where h: "number_to_string (JNumber i) = c # r" "c = 0x2D \<or> is_digit c"
    using number_to_string_head by blast
  have c: "c \<noteq> 0x7B \<and> c \<noteq> 0x5B \<and> c \<noteq> 0x22 \<and> c \<noteq> 0x74 \<and> c \<noteq> 0x66 \<and> c \<noteq> 0x6E"
    using h(2) is_digit_dispatch [of c] by auto
  have "parse_value (Suc n) (c # r @ rest) = parse_number (c # r @ rest)"
    using c by simp
  then show ?thesis
    using parse_number_roundtrip [OF assms, of i] by (simp add: h)
qed

lemma parse_value_string:
  "parse_value (Suc n) (quote_json s @ rest) = Some (JString s, rest)"
  by (simp add: quote_json_def parse_chars_quote)

lemma parse_value_literals:
  "parse_value (Suc n) (js ''null'' @ rest) = Some (JNull, rest)"
  "parse_value (Suc n) (js ''true'' @ rest) = Some (JBool True, rest)"
  "parse_value (Suc n) (js ''false'' @ rest) = Some (JBool False, rest)"
  by (simp_all add: js_def literal_def)

lemma parse_value_scalar:
  assumes "scalar v" "number_end rest"
  shows "\<exists>t. JSON_stringify v = Some t \<and> parse_value (Suc n) (t @ rest) = Some (v, rest)
            \<and> skip_ws (t @ rest) = t @ rest"
proof (cases v)
  case JNull
  have "skip_ws (js ''null'' @ rest) = js ''null'' @ rest"
    by (simp add: js_def skip_ws_def is_ws_def)
  then show ?thesis using JNull parse_value_literals(1) [of n rest] by simp
next
  case (JBool b)
  have "skip_ws (js ''true'' @ rest) = js ''true'' @ rest"
    "skip_ws (js ''false'' @ rest) = js ''false'' @ rest"
    by (simp_all add: js_def skip_ws_def is_ws_def)
  then show ?thesis
    using JBool parse_value_literals(2,3) [of n rest] by (cases b) simp_all
next
  case (JNumber i)
  obtain c r where h: "number_to_string (JNumber i) = c # r" "c = 0x2D \<or> is_digit c"
    using number_to_string_head by blast
  then have "\<not> is_ws c" using is_digit_not_ws [of c] is_ws_consts by auto
  then have "skip_ws (number_to_string (JNumber i) @ rest) = number_to_string (JNumber i) @ rest"
    by (simp add: h skip_ws_cons)
  then show ?thesis using JNumber parse_value_number [OF assms(2)] by simp
next
  case (JString s)
  have "skip_ws (quote_json s @ rest) = quote_json s @ rest"
    by (simp add: quote_json_def skip_ws_cons is_ws_consts)
  then show ?thesis using JString parse_value_string by simp
qed (use assms(1) in \<open>simp_all add: scalar_def\<close>)

section \<open>Objects of scalar properties\<close>

lemma scalar_stringify: "scalar v \<Longrightarrow> \<exists>t. JSON_stringify v = Some t"
  by (cases v) (simp_all add: scalar_def)

lemma parse_members_step:
  assumes "scalar v" "c = 0x2C \<or> c = 0x7D"
  shows "parse_members (Suc (Suc n)) acc (member_text (k, v) @ c # r) =
           (if c = 0x2C then parse_members (Suc n) (obj_set k v acc) (skip_ws r)
            else Some (JObject (obj_set k v acc), r))"
proof -
  have ne: "number_end (c # r)" using assms(2) number_end_sep by auto
  obtain t where t: "JSON_stringify v = Some t"
    "parse_value (Suc n) (t @ c # r) = Some (v, c # r)" "skip_ws (t @ c # r) = t @ c # r"
    using parse_value_scalar [OF assms(1) ne, of n] by blast
  have shape: "member_text (k, v) @ c # r = 0x22 # quote_chars k @ 0x22 # 0x3A # t @ c # r"
    by (simp add: member_text_def quote_json_def t(1))
  have c: "skip_ws (c # r) = c # r" using assms(2) by (auto simp add: skip_ws_cons is_ws_consts)
  show ?thesis
    unfolding shape
    apply (subst parse_members.simps)
    using assms(2)
    apply (auto simp del: parse_value.simps parse_members.simps
        simp add: parse_chars_quote skip_ws_cons is_ws_consts t(2,3) c)
    done
qed

lemma join_cons: "xs \<noteq> [] \<Longrightarrow> join sep (x # xs) = x @ sep @ join sep xs"
  by (cases xs) simp_all

lemma member_text_head: "\<exists>r. member_text kv = 0x22 # r"
  by (simp add: member_text_def quote_json_def)

lemma join_members_head: "kvs \<noteq> [] \<Longrightarrow> \<exists>r. join sep (map member_text kvs) = 0x22 # r"
proof (cases kvs)
  case (Cons kv kvs')
  obtain r where "member_text kv = 0x22 # r" using member_text_head by blast
  then show ?thesis using Cons by (cases kvs') simp_all
qed simp

lemma length_join_members: "length kvs \<le> length (join sep (map member_text kvs))"
proof (induction kvs)
  case (Cons kv kvs)
  obtain r where r: "member_text kv = 0x22 # r" using member_text_head by blast
  show ?case
  proof (cases kvs)
    case Nil
    then show ?thesis by (simp add: r)
  next
    case (Cons kv' kvs')
    then have "join sep (map member_text (kv # kvs)) = member_text kv @ sep @ join sep (map member_text kvs)"
      by simp
    then show ?thesis using Cons.IH by (simp add: r)
  qed
qed simp

lemma parse_members_roundtrip:
  assumes "list_all (\<lambda>kv. scalar (snd kv)) kvs" "kvs \<noteq> []" "length kvs < f"
  shows "parse_members f acc (join [0x2C] (map member_text kvs) @ 0x7D # rest)
           = Some (JObject (foldl (\<lambda>a kv. obj_set (fst kv) (snd kv) a) acc kvs), rest)"
  using assms
proof (induction kvs arbitrary: f acc)
  case Nil
  then show ?case by simp
next
  case (Cons kv kvs)
  obtain k v where kv: "kv = (k, v)" by (cases kv)
  have v: "scalar v" using Cons.prems(1) kv by simp
  obtain n where f: "f = Suc (Suc n)" using Cons.prems(3) by (cases f; cases "f - 1") auto
  show ?case
  proof (cases "kvs = []")
    case True
    then show ?thesis
      unfolding f kv using parse_members_step [OF v, of "0x7D" n acc k rest] by simp
  next
    case False
    obtain r where r: "join [0x2C] (map member_text kvs) = 0x22 # r"
      using join_members_head [OF False] by blast
    have sk: "skip_ws (join [0x2C] (map member_text kvs) @ 0x7D # rest)
                = join [0x2C] (map member_text kvs) @ 0x7D # rest"
      by (simp add: r skip_ws_cons is_ws_consts)
    have IH: "parse_members (Suc n) (obj_set k v acc) (join [0x2C] (map member_text kvs) @ 0x7D # rest)
               = Some (JObject (foldl (\<lambda>a kv. obj_set (fst kv) (snd kv) a) (obj_set k v acc) kvs), rest)"
      using Cons.IH [of "Suc n" "obj_set k v acc"] Cons.prems False f by simp
    have "join [0x2C] (map member_text (kv # kvs)) @ 0x7D # rest
            = member_text (k, v) @ 0x2C # (join [0x2C] (map member_text kvs) @ 0x7D # rest)"
      using False by (simp add: join_cons kv)
    then show ?thesis
      unfolding f using parse_members_step [OF v, of "0x2C" n acc k] sk IH by (simp add: kv)
  qed
qed

lemma stringify_flat_object:
  assumes "list_all scalar_or_undefined kvs"
  shows "JSON_stringify (JObject kvs)
           = Some (0x7B # join [0x2C] (map member_text (filter is_defined kvs)) @ [0x7D])"
proof -
  have "concat (map (\<lambda>(k, v). case JSON_stringify v of None \<Rightarrow> [] | Some t \<Rightarrow> [quote_json k @ 0x3A # t]) kvs)
          = map member_text (filter is_defined kvs)"
    using assms
  proof (induction kvs)
    case (Cons kv kvs)
    obtain k v where kv: "kv = (k, v)" by (cases kv)
    show ?case
    proof (cases "v = JUndefined")
      case True
      then show ?thesis using Cons by (simp add: kv is_defined_def)
    next
      case False
      then have "scalar v" using Cons.prems by (simp add: kv scalar_or_undefined_def)
      then obtain t where "JSON_stringify v = Some t" using scalar_stringify by blast
      then show ?thesis using Cons False by (simp add: kv is_defined_def member_text_def)
    qed
  qed simp
  then show ?thesis by simp
qed

lemma JSON_parse_flat_object:
  assumes "list_all scalar_or_undefined kvs"
  shows "JSON_parse (0x7B # join [0x2C] (map member_text (filter is_defined kvs)) @ [0x7D])
           = Inr (JObject (foldl (\<lambda>a kv. obj_set (fst kv) (snd kv) a) [] (filter is_defined kvs)))"
proof -
  define ms where "ms = filter is_defined kvs"
  define body where "body = join [0x2C] (map member_text ms)"
  have sc: "list_all (\<lambda>kv. scalar (snd kv)) ms"
    using assms unfolding ms_def by (auto simp add: list_all_iff scalar_or_undefined_def is_defined_def)
  have len: "length ms < 2 * length (0x7B # body @ [0x7D])"
    using length_join_members [of ms "[0x2C]"] unfolding body_def by simp
  have sk: "skip_ws (0x7B # body @ [0x7D]) = 0x7B # body @ [0x7D]"
    by (simp add: skip_ws_cons is_ws_consts)
  have "parse_value (Suc (2 * length (0x7B # body @ [0x7D]))) (0x7B # body @ [0x7D])
          = Some (JObject (foldl (\<lambda>a kv. obj_set (fst kv) (snd kv) a) [] ms), [])"
  proof (cases "ms = []")
    case True
    then have "body = []" by (simp add: body_def)
    then show ?thesis
      using True
      by (subst parse_value.simps) (simp del: parse_value.simps add: skip_ws_cons is_ws_consts)
  next
    case False
    obtain r where r: "body = 0x22 # r" using join_members_head [OF False] body_def by blast
    have "parse_members (2 * length (0x7B # body @ [0x7D])) [] (body @ [0x7D])
            = Some (JObject (foldl (\<lambda>a kv. obj_set (fst kv) (snd kv) a) [] ms), [])"
      unfolding body_def using parse_members_roundtrip [OF sc False len [unfolded body_def], of "[]" "[]"]
      by simp
    moreover have "parse_value (Suc (2 * length (0x7B # body @ [0x7D]))) (0x7B # body @ [0x7D])
            = parse_members (2 * length (0x7B # body @ [0x7D])) [] (body @ [0x7D])"
      apply (subst parse_value.simps)
      apply (simp del: parse_value.simps parse_members.simps add: r skip_ws_cons is_ws_consts)
      done
    ultimately show ?thesis by simp
  qed
  then show ?thesis
    unfolding JSON_parse_def ms_def [symmetric] body_def [symmetric] sk
    by (simp add: skip_ws_def del: parse_value.simps)
qed

lemma obj_set_fresh:
  "map_of acc k = None \<Longrightarrow> array_index k = None \<Longrightarrow> obj_set k v acc = acc @ [(k, v)]"
  by (simp add: obj_set_def)

lemma foldl_obj_set_fresh:
  assumes "distinct (map fst (acc @ kvs))" "list_all plain_key kvs"
  shows "foldl (\<lambda>a kv. obj_set (fst kv) (snd kv) a) acc kvs = acc @ kvs"
  using assms
proof (induction kvs arbitrary: acc)
  case (Cons kv kvs)
  have "map_of acc (fst kv) = None" using Cons.prems(1) by (simp add: map_of_eq_None_iff)
  then have "obj_set (fst kv) (snd kv) acc = acc @ [kv]"
    using Cons.prems(2) by (simp add: obj_set_fresh plain_key_def)
  then show ?case using Cons.IH [of "acc @ [kv]"] Cons.prems by simp
qed simp

lemma flat_object_roundtrip:
  assumes "list_all scalar_or_undefined kvs" "distinct (map fst kvs)" "list_all plain_key kvs"
  shows "\<exists>t. JSON_stringify (JObject kvs) = Some t \<and> JSON_parse t = Inr (JObject (filter is_defined kvs))"
proof -
  have "distinct (map fst ([] @ filter is_defined kvs))"
    using assms(2) by (simp add: distinct_map_filter)
  moreover have "list_all plain_key (filter is_defined kvs)"
    using assms(3) by (simp add: list_all_iff)
  ultimately have "foldl (\<lambda>a kv. obj_set (fst kv) (snd kv) a) [] (filter is_defined kvs) = filter is_defined kvs"
    using foldl_obj_set_fresh [of "[]" "filter is_defined kvs"] by simp
  then show ?thesis
    using stringify_flat_object [OF assms(1)] JSON_parse_flat_object [OF assms(1)] by simp
qed

section \<open>The bound of the parser\<close>

lemma parse_fuel_Suc:
  "(\<forall>s x. parse_value f s = Some x \<longrightarrow> parse_value (Suc f) s = Some x)
   \<and> (\<forall>acc s x. parse_elements f acc s = Some x \<longrightarrow> parse_elements (Suc f) acc s = Some x)
   \<and> (\<forall>acc s x. parse_members f acc s = Some x \<longrightarrow> parse_members (Suc f) acc s = Some x)"
proof (induction f)
  case 0
  show ?case by simp
next
  case (Suc f)
  have V: "parse_value f s = Some x \<Longrightarrow> parse_value (Suc f) s = Some x" for s x
    using Suc by blast
  have E: "parse_elements f acc s = Some x \<Longrightarrow> parse_elements (Suc f) acc s = Some x" for acc s x
    using Suc by blast
  have M: "parse_members f acc s = Some x \<Longrightarrow> parse_members (Suc f) acc s = Some x" for acc s x
    using Suc by blast
  have "parse_value (Suc (Suc f)) s = Some x" if "parse_value (Suc f) s = Some x" for s x
    using that
    apply (subst (asm) parse_value.simps)
    apply (subst parse_value.simps)
    apply (auto simp del: parse_value.simps parse_elements.simps parse_members.simps
        split: list.splits if_splits dest: E M)
    done
  moreover have "parse_elements (Suc (Suc f)) acc s = Some x"
    if "parse_elements (Suc f) acc s = Some x" for acc s x
    using that
    apply (subst (asm) parse_elements.simps)
    apply (subst parse_elements.simps)
    apply (auto simp del: parse_value.simps parse_elements.simps parse_members.simps
        split: list.splits option.splits if_splits dest!: V E)
    done
  moreover have "parse_members (Suc (Suc f)) acc s = Some x"
    if "parse_members (Suc f) acc s = Some x" for acc s x
    using that
    apply (subst (asm) parse_members.simps)
    apply (subst parse_members.simps)
    apply (auto simp del: parse_value.simps parse_elements.simps parse_members.simps
        split: list.splits option.splits if_splits dest!: V M)
    done
  ultimately show ?case by blast
qed

lemma parse_value_fuel_mono:
  assumes "parse_value f s = Some x" "f \<le> g"
  shows "parse_value g s = Some x"
  using assms(2)
proof (induction g)
  case 0
  then show ?case using assms(1) by simp
next
  case (Suc g)
  show ?case
  proof (cases "f = Suc g")
    case True
    then show ?thesis using assms(1) by (simp del: parse_value.simps)
  next
    case False
    then have "parse_value g s = Some x" using Suc by simp
    then show ?thesis using parse_fuel_Suc by blast
  qed
qed

lemma parse_elements_fuel_mono:
  assumes "parse_elements f acc s = Some x" "f \<le> g"
  shows "parse_elements g acc s = Some x"
  using assms(2)
proof (induction g)
  case 0
  then show ?case using assms(1) by simp
next
  case (Suc g)
  show ?case
  proof (cases "f = Suc g")
    case True
    then show ?thesis using assms(1) by (simp del: parse_elements.simps)
  next
    case False
    then have "parse_elements g acc s = Some x" using Suc by simp
    then show ?thesis using parse_fuel_Suc by blast
  qed
qed

lemma parse_members_fuel_mono:
  assumes "parse_members f acc s = Some x" "f \<le> g"
  shows "parse_members g acc s = Some x"
  using assms(2)
proof (induction g)
  case 0
  then show ?case using assms(1) by simp
next
  case (Suc g)
  show ?case
  proof (cases "f = Suc g")
    case True
    then show ?thesis using assms(1) by (simp del: parse_members.simps)
  next
    case False
    then have "parse_members g acc s = Some x" using Suc by simp
    then show ?thesis using parse_fuel_Suc by blast
  qed
qed

lemma length_skip_ws: "length (skip_ws s) \<le> length s"
  by (simp add: skip_ws_def length_dropWhile_le)

lemma skip_ws_Cons_length: "skip_ws s = c # cs \<Longrightarrow> length cs < length s"
  using length_skip_ws [of s] by simp

lemma cons_result_Some: "cons_result u x = Some (k, r) \<Longrightarrow> \<exists>k'. x = Some (k', r)"
  by (auto simp add: cons_result_def split: option.splits)

lemma parse_chars_length: "parse_chars s = Some (k, r) \<Longrightarrow> length r < length s"
proof (induction s arbitrary: k r rule: length_induct)
  case (1 s)
  have IH: "parse_chars t = Some (k', r') \<Longrightarrow> length t < length s \<Longrightarrow> length r' < length t" for t k' r'
    using 1(1) by blast
  show ?case
  proof (cases s)
    case Nil
    then show ?thesis using 1(2) by simp
  next
    case s: (Cons c cs)
    show ?thesis
    proof (cases "c = 0x22")
      case True
      then show ?thesis using 1(2) s by simp
    next
      case nq: False
      show ?thesis
      proof (cases "c = 0x5C")
        case bs: True
        show ?thesis
        proof (cases cs)
          case Nil
          then show ?thesis using 1(2) s bs by simp
        next
          case cs: (Cons e es)
          show ?thesis
          proof (cases "e = 0x75")
            case True
            have "\<exists>h1 h2 h3 h4 r' u. es = h1 # h2 # h3 # h4 # r' \<and> cons_result u (parse_chars r') = Some (k, r)"
              using 1(2) unfolding s cs bs True by (auto split: list.splits option.splits)
            then obtain h1 h2 h3 h4 r' u where es: "es = h1 # h2 # h3 # h4 # r'"
              and c: "cons_result u (parse_chars r') = Some (k, r)"
              by blast
            from cons_result_Some [OF c] obtain k' where p: "parse_chars r' = Some (k', r)" ..
            have "length r < length r'" using IH [OF p] s cs es by simp
            then show ?thesis using s cs es by simp
          next
            case False
            have "\<exists>u. cons_result u (parse_chars es) = Some (k, r)"
              using 1(2) False unfolding s cs bs by (auto split: option.splits)
            then obtain u where c: "cons_result u (parse_chars es) = Some (k, r)" ..
            from cons_result_Some [OF c] obtain k' where p: "parse_chars es = Some (k', r)" ..
            have "length r < length es" using IH [OF p] s cs by simp
            then show ?thesis using s cs by simp
          qed
        qed
      next
        case False
        have c: "cons_result c (parse_chars cs) = Some (k, r)"
          using 1(2) nq False unfolding s by (simp split: if_splits)
        from cons_result_Some [OF c] obtain k' where p: "parse_chars cs = Some (k', r)" ..
        have "length r < length cs" using IH [OF p] s by simp
        then show ?thesis using s by simp
      qed
    qed
  qed
qed

lemma parse_frac_length: "parse_frac s = Some (fp, r) \<Longrightarrow> length r \<le> length s"
proof (cases s)
  case Nil
  then show "parse_frac s = Some (fp, r) \<Longrightarrow> length r \<le> length s" by (simp add: parse_frac_def)
next
  case (Cons c cs)
  assume "parse_frac s = Some (fp, r)"
  then show "length r \<le> length s"
    using length_dropWhile_le [of is_digit cs] unfolding Cons
    by (auto simp add: parse_frac_def split: if_splits)
qed

lemma parse_sign_length: "parse_sign s = (b, r) \<Longrightarrow> length r \<le> length s"
  by (cases s) (auto simp add: parse_sign_def split: if_splits)

lemma parse_exp_length: "parse_exp s = Some (ex, r) \<Longrightarrow> length r \<le> length s"
proof (cases s)
  case Nil
  then show "parse_exp s = Some (ex, r) \<Longrightarrow> length r \<le> length s" by (simp add: parse_exp_def)
next
  case (Cons c cs)
  assume a: "parse_exp s = Some (ex, r)"
  obtain b r1 where s: "parse_sign cs = (b, r1)" by (cases "parse_sign cs")
  have "length (dropWhile is_digit r1) \<le> length cs"
    using parse_sign_length [OF s] length_dropWhile_le [of is_digit r1] by linarith
  then show "length r \<le> length s"
    using a unfolding Cons by (auto simp add: parse_exp_def s Let_def split: if_splits)
qed

lemma dropWhile_shorter: "takeWhile P s \<noteq> [] \<Longrightarrow> length (dropWhile P s) < length s"
  using length_dropWhile_le [of P "tl s"] by (cases s) (auto split: if_splits)

lemma parse_unsigned_length:
  assumes "parse_unsigned neg s = Some (v, r)"
  shows "length r < length s"
proof -
  have ne: "takeWhile is_digit s \<noteq> []"
    using assms by (auto simp add: parse_unsigned_def Let_def split: if_splits)
  obtain fp s3 where f: "parse_frac (dropWhile is_digit s) = Some (fp, s3)"
    using assms by (auto simp add: parse_unsigned_def Let_def split: if_splits option.splits)
  obtain ex where e: "parse_exp s3 = Some (ex, r)"
    using assms f by (auto simp add: parse_unsigned_def Let_def split: if_splits option.splits)
  show ?thesis
    using dropWhile_shorter [OF ne] parse_frac_length [OF f] parse_exp_length [OF e] by linarith
qed

lemma parse_number_length: "parse_number s = Some (v, r) \<Longrightarrow> length r < length s"
  by (cases s) (auto simp add: parse_number_def split: if_splits dest!: parse_unsigned_length)

lemma literal_length: "w \<noteq> [] \<Longrightarrow> literal w v s = Some (v', r) \<Longrightarrow> length r < length s"
  by (cases s) (auto simp add: literal_def split: if_splits)

lemma js_literal_nonempty: "js ''true'' \<noteq> []" "js ''false'' \<noteq> []" "js ''null'' \<noteq> []"
  by (simp_all add: js_def)

lemma parse_value_length_step:
  assumes E0: "\<forall>acc s v r. parse_elements f acc s = Some (v, r) \<longrightarrow> length r < length s"
    and M0: "\<forall>acc s v r. parse_members f acc s = Some (v, r) \<longrightarrow> length r < length s"
    and p: "parse_value (Suc f) s = Some (v, r)"
  shows "length r < length s"
proof (cases s)
  case Nil
  then show ?thesis using p by simp
next
  case s: (Cons c cs)
  note E = E0 [rule_format] and M = M0 [rule_format]
  consider (obj) "c = 0x7B" | (arr) "c \<noteq> 0x7B" "c = 0x5B" | (str) "c \<noteq> 0x7B" "c \<noteq> 0x5B" "c = 0x22"
    | (lit) "c \<noteq> 0x7B" "c \<noteq> 0x5B" "c \<noteq> 0x22" "c = 0x74 \<or> c = 0x66 \<or> c = 0x6E"
    | (num) "c \<noteq> 0x7B" "c \<noteq> 0x5B" "c \<noteq> 0x22" "c \<noteq> 0x74" "c \<noteq> 0x66" "c \<noteq> 0x6E"
    by blast
  then show ?thesis
  proof cases
    case obj
    show ?thesis
    proof (cases "skip_ws cs")
      case Nil
      then show ?thesis using p unfolding s obj by simp
    next
      case w: (Cons d ds)
      have ds: "length ds < length cs" using skip_ws_Cons_length [OF w] .
      show ?thesis
      proof (cases "d = 0x7D")
        case True
        then have "r = ds" using p unfolding s obj by (simp add: w)
        then show ?thesis using ds s by simp
      next
        case False
        then have "parse_members f [] (d # ds) = Some (v, r)"
          using p unfolding s obj by (simp add: w del: parse_members.simps)
        then have "length r < length (d # ds)" by (rule M)
        then show ?thesis using ds s by simp
      qed
    qed
  next
    case arr
    show ?thesis
    proof (cases "skip_ws cs")
      case Nil
      then show ?thesis using p arr unfolding s by simp
    next
      case w: (Cons d ds)
      have ds: "length ds < length cs" using skip_ws_Cons_length [OF w] .
      show ?thesis
      proof (cases "d = 0x5D")
        case True
        then have "r = ds" using p arr unfolding s by (simp add: w)
        then show ?thesis using ds s by simp
      next
        case False
        then have "parse_elements f [] (d # ds) = Some (v, r)"
          using p arr unfolding s by (simp add: w del: parse_elements.simps)
        then have "length r < length (d # ds)" by (rule E)
        then show ?thesis using ds s by simp
      qed
    qed
  next
    case str
    then obtain k where "parse_chars cs = Some (k, r)"
      using p unfolding s by (auto split: option.splits)
    then show ?thesis using parse_chars_length s by fastforce
  next
    case lit
    then obtain w v' where "w \<noteq> []" "literal w v' s = Some (v, r)"
      using p js_literal_nonempty unfolding s by (auto simp del: parse_value.simps simp add: parse_value.simps(2) [of f "c # cs"])
    then show ?thesis by (rule literal_length)
  next
    case num
    then have "parse_number s = Some (v, r)" using p unfolding s by simp
    then show ?thesis by (rule parse_number_length)
  qed
qed

lemma parse_elements_length_step:
  assumes V0: "\<forall>s v r. parse_value f s = Some (v, r) \<longrightarrow> length r < length s"
    and E0: "\<forall>acc s v r. parse_elements f acc s = Some (v, r) \<longrightarrow> length r < length s"
    and p: "parse_elements (Suc f) acc s = Some (v, r)"
  shows "length r < length s"
proof -
  note V = V0 [rule_format] and E = E0 [rule_format]
  obtain v1 r1 where v1: "parse_value f s = Some (v1, r1)"
    using p by (subst (asm) parse_elements.simps) (auto split: option.splits)
  have r1: "length r1 < length s" using V [OF v1] .
  obtain c cs where w: "skip_ws r1 = c # cs"
    using p by (subst (asm) parse_elements.simps) (auto simp add: v1 split: list.splits)
  have cs: "length cs < length r1" using skip_ws_Cons_length [OF w] .
  show ?thesis
  proof (cases "c = 0x2C")
    case True
    then have "parse_elements f (acc @ [v1]) (skip_ws cs) = Some (v, r)"
      using p by (subst (asm) parse_elements.simps) (simp add: v1 w)
    then have "length r < length (skip_ws cs)" by (rule E)
    then show ?thesis using length_skip_ws [of cs] cs r1 by linarith
  next
    case False
    then have "r = cs"
      using p by (subst (asm) parse_elements.simps) (auto simp add: v1 w split: if_splits)
    then show ?thesis using cs r1 by simp
  qed
qed

lemma parse_members_length_step:
  assumes V0: "\<forall>s v r. parse_value f s = Some (v, r) \<longrightarrow> length r < length s"
    and M0: "\<forall>acc s v r. parse_members f acc s = Some (v, r) \<longrightarrow> length r < length s"
    and p: "parse_members (Suc f) acc s = Some (v, r)"
  shows "length r < length s"
proof -
  note V = V0 [rule_format] and M = M0 [rule_format]
  obtain cs where s: "s = 0x22 # cs"
    using p by (subst (asm) parse_members.simps) (auto split: list.splits if_splits)
  obtain k r0 where k: "parse_chars cs = Some (k, r0)"
    using p unfolding s by (subst (asm) parse_members.simps) (auto split: option.splits)
  have r0: "length r0 < length cs" using parse_chars_length [OF k] .
  obtain ds where w0: "skip_ws r0 = 0x3A # ds"
    using p unfolding s
    by (subst (asm) parse_members.simps) (auto simp add: k split: list.splits if_splits)
  have ds: "length ds < length r0" using skip_ws_Cons_length [OF w0] .
  obtain v1 r1 where v1: "parse_value f (skip_ws ds) = Some (v1, r1)"
    using p unfolding s
    by (subst (asm) parse_members.simps) (auto simp add: k w0 split: option.splits)
  have r1: "length r1 < length ds" using V [OF v1] length_skip_ws [of ds] by linarith
  obtain e es where w: "skip_ws r1 = e # es"
    using p unfolding s
    by (subst (asm) parse_members.simps) (auto simp add: k w0 v1 split: list.splits)
  have es: "length es < length r1" using skip_ws_Cons_length [OF w] .
  show ?thesis
  proof (cases "e = 0x2C")
    case True
    then have "parse_members f (obj_set k v1 acc) (skip_ws es) = Some (v, r)"
      using p unfolding s by (subst (asm) parse_members.simps) (simp add: k w0 v1 w)
    then have "length r < length (skip_ws es)" by (rule M)
    then show ?thesis using length_skip_ws [of es] es r1 ds r0 s by simp
  next
    case False
    then have "r = es"
      using p unfolding s
      by (subst (asm) parse_members.simps) (auto simp add: k w0 v1 w split: if_splits)
    then show ?thesis using es r1 ds r0 s by simp
  qed
qed

lemma parse_length:
  "(\<forall>s v r. parse_value f s = Some (v, r) \<longrightarrow> length r < length s)
   \<and> (\<forall>acc s v r. parse_elements f acc s = Some (v, r) \<longrightarrow> length r < length s)
   \<and> (\<forall>acc s v r. parse_members f acc s = Some (v, r) \<longrightarrow> length r < length s)"
proof (induction f)
  case 0
  show ?case by simp
next
  case (Suc f)
  then have V: "\<forall>s v r. parse_value f s = Some (v, r) \<longrightarrow> length r < length s"
    and E: "\<forall>acc s v r. parse_elements f acc s = Some (v, r) \<longrightarrow> length r < length s"
    and M: "\<forall>acc s v r. parse_members f acc s = Some (v, r) \<longrightarrow> length r < length s"
    by simp_all
  show ?case
    using parse_value_length_step [OF E M] parse_elements_length_step [OF V E]
      parse_members_length_step [OF V M]
    by blast
qed

lemmas parse_value_length = parse_length [THEN conjunct1, rule_format]

lemma parse_value_enough_step:
  assumes E0: "\<forall>acc s x. parse_elements f acc s = Some x \<longrightarrow> parse_elements (2 * length s + 2) acc s = Some x"
    and M0: "\<forall>acc s x. parse_members f acc s = Some x \<longrightarrow> parse_members (2 * length s + 2) acc s = Some x"
    and p: "parse_value (Suc f) s = Some x"
  shows "parse_value (2 * length s + 1) s = Some x"
proof (cases s)
  case Nil
  then show ?thesis using p by simp
next
  case s: (Cons c cs)
  note E = E0 [rule_format] and M = M0 [rule_format]
  have n: "2 * length s + 1 = Suc (2 * length s)" by simp
  consider (obj) "c = 0x7B" | (arr) "c \<noteq> 0x7B" "c = 0x5B" | (other) "c \<noteq> 0x7B" "c \<noteq> 0x5B"
    by blast
  then show ?thesis
  proof cases
    case obj
    show ?thesis
    proof (cases "skip_ws cs")
      case Nil
      then show ?thesis using p unfolding s obj by simp
    next
      case w: (Cons d ds)
      have ds: "length ds < length cs" using skip_ws_Cons_length [OF w] .
      show ?thesis
      proof (cases "d = 0x7D")
        case True
        then have "parse_value (Suc g) s = parse_value (Suc f) s" for g
          unfolding s obj by (simp add: w)
        then show ?thesis using p unfolding n by simp
      next
        case False
        then have "parse_members f [] (d # ds) = Some x"
          using p unfolding s obj by (simp add: w del: parse_members.simps)
        then have "parse_members (2 * length (d # ds) + 2) [] (d # ds) = Some x" by (rule M)
        then have "parse_members (2 * length s) [] (d # ds) = Some x"
          using ds s by (elim parse_members_fuel_mono) simp
        then show ?thesis
          using False unfolding n
          by (subst parse_value.simps) (simp add: s obj w del: parse_members.simps parse_value.simps)
      qed
    qed
  next
    case arr
    show ?thesis
    proof (cases "skip_ws cs")
      case Nil
      then show ?thesis using p arr unfolding s by simp
    next
      case w: (Cons d ds)
      have ds: "length ds < length cs" using skip_ws_Cons_length [OF w] .
      show ?thesis
      proof (cases "d = 0x5D")
        case True
        then have "parse_value (Suc g) s = parse_value (Suc f) s" for g
          using arr unfolding s by (simp add: w)
        then show ?thesis using p unfolding n by simp
      next
        case False
        then have "parse_elements f [] (d # ds) = Some x"
          using p arr unfolding s by (simp add: w del: parse_elements.simps)
        then have "parse_elements (2 * length (d # ds) + 2) [] (d # ds) = Some x" by (rule E)
        then have "parse_elements (2 * length s) [] (d # ds) = Some x"
          using ds s by (elim parse_elements_fuel_mono) simp
        then show ?thesis
          using False arr unfolding n
          by (subst parse_value.simps)
            (simp add: s w del: parse_elements.simps parse_value.simps)
      qed
    qed
  next
    case other
    then have "parse_value (Suc g) s = parse_value (Suc f) s" for g
      unfolding s by simp
    then show ?thesis using p unfolding n by simp
  qed
qed

lemma parse_elements_enough_step:
  assumes V0: "\<forall>s x. parse_value f s = Some x \<longrightarrow> parse_value (2 * length s + 1) s = Some x"
    and E0: "\<forall>acc s x. parse_elements f acc s = Some x \<longrightarrow> parse_elements (2 * length s + 2) acc s = Some x"
    and p: "parse_elements (Suc f) acc s = Some x"
  shows "parse_elements (2 * length s + 2) acc s = Some x"
proof -
  note V = V0 [rule_format] and E = E0 [rule_format]
  define g where "g = 2 * length s + 1"
  have n: "2 * length s + 2 = Suc g" by (simp add: g_def)
  obtain v1 r1 where v1: "parse_value f s = Some (v1, r1)"
    using p by (subst (asm) parse_elements.simps) (auto split: option.splits)
  have r1: "length r1 < length s" using parse_value_length [OF v1] .
  have v1': "parse_value g s = Some (v1, r1)" using V [OF v1] unfolding g_def .
  obtain c cs where w: "skip_ws r1 = c # cs"
    using p by (subst (asm) parse_elements.simps) (auto simp add: v1 split: list.splits)
  have cs: "length cs < length r1" using skip_ws_Cons_length [OF w] .
  show ?thesis
  proof (cases "c = 0x2C")
    case True
    then have "parse_elements f (acc @ [v1]) (skip_ws cs) = Some x"
      using p by (subst (asm) parse_elements.simps) (simp add: v1 w)
    then have "parse_elements (2 * length (skip_ws cs) + 2) (acc @ [v1]) (skip_ws cs) = Some x"
      by (rule E)
    then have "parse_elements g (acc @ [v1]) (skip_ws cs) = Some x"
      using length_skip_ws [of cs] cs r1 unfolding g_def by (elim parse_elements_fuel_mono) linarith
    then show ?thesis
      using True unfolding n
      by (subst parse_elements.simps)
        (simp add: v1' w del: parse_elements.simps parse_value.simps)
  next
    case False
    then have "parse_elements (Suc h) acc s = parse_elements (Suc f) acc s"
      if "parse_value h s = Some (v1, r1)" for h
      using that by (simp add: v1 w)
    then show ?thesis using p v1' unfolding n by simp
  qed
qed

lemma parse_members_enough_step:
  assumes V0: "\<forall>s x. parse_value f s = Some x \<longrightarrow> parse_value (2 * length s + 1) s = Some x"
    and M0: "\<forall>acc s x. parse_members f acc s = Some x \<longrightarrow> parse_members (2 * length s + 2) acc s = Some x"
    and p: "parse_members (Suc f) acc s = Some x"
  shows "parse_members (2 * length s + 2) acc s = Some x"
proof -
  note V = V0 [rule_format] and M = M0 [rule_format]
  define g where "g = 2 * length s + 1"
  have n: "2 * length s + 2 = Suc g" by (simp add: g_def)
  obtain cs where s: "s = 0x22 # cs"
    using p by (subst (asm) parse_members.simps) (auto split: list.splits if_splits)
  obtain k r0 where k: "parse_chars cs = Some (k, r0)"
    using p unfolding s by (subst (asm) parse_members.simps) (auto split: option.splits)
  have r0: "length r0 < length cs" using parse_chars_length [OF k] .
  obtain ds where w0: "skip_ws r0 = 0x3A # ds"
    using p unfolding s
    by (subst (asm) parse_members.simps) (auto simp add: k split: list.splits if_splits)
  have ds: "length ds < length r0" using skip_ws_Cons_length [OF w0] .
  obtain v1 r1 where v1: "parse_value f (skip_ws ds) = Some (v1, r1)"
    using p unfolding s
    by (subst (asm) parse_members.simps) (auto simp add: k w0 split: option.splits)
  have r1: "length r1 < length ds" using parse_value_length [OF v1] length_skip_ws [of ds] by linarith
  have "parse_value (2 * length (skip_ws ds) + 1) (skip_ws ds) = Some (v1, r1)" using V [OF v1] .
  then have v1': "parse_value g (skip_ws ds) = Some (v1, r1)"
    using length_skip_ws [of ds] ds r0 s unfolding g_def by (elim parse_value_fuel_mono) simp
  obtain e es where w: "skip_ws r1 = e # es"
    using p unfolding s
    by (subst (asm) parse_members.simps) (auto simp add: k w0 v1 split: list.splits)
  have es: "length es < length r1" using skip_ws_Cons_length [OF w] .
  show ?thesis
  proof (cases "e = 0x2C")
    case True
    then have "parse_members f (obj_set k v1 acc) (skip_ws es) = Some x"
      using p unfolding s by (subst (asm) parse_members.simps) (simp add: k w0 v1 w)
    then have "parse_members (2 * length (skip_ws es) + 2) (obj_set k v1 acc) (skip_ws es) = Some x"
      by (rule M)
    then have "parse_members g (obj_set k v1 acc) (skip_ws es) = Some x"
      using length_skip_ws [of es] es r1 ds r0 s unfolding g_def by (elim parse_members_fuel_mono) simp
    then show ?thesis
      using True unfolding n
      by (subst parse_members.simps)
        (simp add: s k w0 v1' w del: parse_members.simps parse_value.simps)
  next
    case False
    then have "parse_members (Suc h) acc s = parse_members (Suc f) acc s"
      if "parse_value h (skip_ws ds) = Some (v1, r1)" for h
      using that unfolding s by (simp add: k w0 v1 w)
    then show ?thesis using p v1' unfolding n by simp
  qed
qed

lemma parse_fuel_enough:
  "(\<forall>s x. parse_value f s = Some x \<longrightarrow> parse_value (2 * length s + 1) s = Some x)
   \<and> (\<forall>acc s x. parse_elements f acc s = Some x \<longrightarrow> parse_elements (2 * length s + 2) acc s = Some x)
   \<and> (\<forall>acc s x. parse_members f acc s = Some x \<longrightarrow> parse_members (2 * length s + 2) acc s = Some x)"
proof (induction f)
  case 0
  show ?case by simp
next
  case (Suc f)
  then have V: "\<forall>s x. parse_value f s = Some x \<longrightarrow> parse_value (2 * length s + 1) s = Some x"
    and E: "\<forall>acc s x. parse_elements f acc s = Some x \<longrightarrow> parse_elements (2 * length s + 2) acc s = Some x"
    and M: "\<forall>acc s x. parse_members f acc s = Some x \<longrightarrow> parse_members (2 * length s + 2) acc s = Some x"
    by simp_all
  show ?case
    using parse_value_enough_step [OF E M] parse_elements_enough_step [OF V E]
      parse_members_enough_step [OF V M]
    by blast
qed

text \<open>The bound \<open>JSON_parse\<close> starts from rejects no text that some bound accepts.\<close>

lemma JSON_parse_any_bound:
  assumes "parse_value f (skip_ws s) = Some (v, r)" "skip_ws r = []"
  shows "JSON_parse s = Inr v"
proof -
  have "parse_value (2 * length (skip_ws s) + 1) (skip_ws s) = Some (v, r)"
    using parse_fuel_enough assms(1) by blast
  then have "parse_value (2 * length s + 1) (skip_ws s) = Some (v, r)"
    using length_skip_ws [of s] by (elim parse_value_fuel_mono) simp
  then show ?thesis using assms(2) by (simp add: JSON_parse_def del: parse_value.simps)
qed

lemma JSON_parse_rejects_iff:
  "JSON_parse q = Inl SyntaxError
     \<longleftrightarrow> (\<forall>f v r. parse_value f (skip_ws q) = Some (v, r) \<longrightarrow> skip_ws r \<noteq> [])"
proof
  assume rejected: "JSON_parse q = Inl SyntaxError"
  show "\<forall>f v r. parse_value f (skip_ws q) = Some (v, r) \<longrightarrow> skip_ws r \<noteq> []"
  proof (intro allI impI notI)
    fix f v r
    assume "parse_value f (skip_ws q) = Some (v, r)" "skip_ws r = []"
    then have "JSON_parse q = Inr v" by (rule JSON_parse_any_bound)
    then show False using rejected by simp
  qed
next
  assume "\<forall>f v r. parse_value f (skip_ws q) = Some (v, r) \<longrightarrow> skip_ws r \<noteq> []"
  then show "JSON_parse q = Inl SyntaxError"
    by (auto simp add: JSON_parse_def simp del: parse_value.simps split: option.splits)
qed

section \<open>What the parser rejects and what it never returns\<close>

lemma JSON_parse_error: "JSON_parse q = Inl e \<Longrightarrow> e = SyntaxError"
  by (auto simp add: JSON_parse_def split: option.splits if_splits)

lemma JSON_parse_empty: "JSON_parse [] = Inl SyntaxError"
  by (simp add: JSON_parse_def skip_ws_def)

lemma JSON_parse_not_json: "JSON_parse (js ''not json'') = Inl SyntaxError"
proof -
  have "parse_value (Suc n) (js ''not json'') = None" for n
    by (simp add: js_def literal_def)
  moreover have "skip_ws (js ''not json'') = js ''not json''"
    by (simp add: js_def skip_ws_def is_ws_def)
  ultimately show ?thesis by (simp add: JSON_parse_def del: parse_value.simps)
qed

lemma parse_members_object: "parse_members f acc s = Some (v, r) \<Longrightarrow> \<exists>kvs. v = JObject kvs"
proof (induction f arbitrary: acc s)
  case 0
  then show ?case by simp
next
  case (Suc f)
  from Suc.prems show ?case
    by (subst (asm) parse_members.simps)
      (auto simp del: parse_value.simps parse_members.simps
        split: list.splits option.splits if_splits prod.splits dest: Suc.IH)
qed

lemma parse_elements_array: "parse_elements f acc s = Some (v, r) \<Longrightarrow> \<exists>vs. v = JArray vs"
proof (induction f arbitrary: acc s)
  case 0
  then show ?case by simp
next
  case (Suc f)
  from Suc.prems show ?case
    by (subst (asm) parse_elements.simps)
      (auto simp del: parse_value.simps parse_elements.simps
        split: list.splits option.splits if_splits prod.splits dest: Suc.IH)
qed

lemma mk_number_defined: "mk_number neg m e \<noteq> JUndefined"
  by (simp add: mk_number_def Let_def split: prod.split)

lemma parse_number_defined: "parse_number s = Some (v, r) \<Longrightarrow> v \<noteq> JUndefined"
  by (auto simp add: parse_number_def parse_unsigned_def Let_def mk_number_defined
      split: list.splits option.splits if_splits prod.splits)

lemma parse_value_defined:
  assumes "parse_value f s = Some (v, r)"
  shows "v \<noteq> JUndefined"
proof (cases f)
  case 0
  then show ?thesis using assms by simp
next
  case (Suc n)
  from assms show ?thesis
    unfolding Suc
    by (subst (asm) parse_value.simps)
      (auto simp del: parse_value.simps parse_members.simps parse_elements.simps
        simp add: literal_def
        split: list.splits option.splits if_splits prod.splits
        dest: parse_members_object parse_elements_array parse_number_defined)
qed

lemma JSON_parse_defined: "JSON_parse q \<noteq> Inr JUndefined"
  by (auto simp add: JSON_parse_def simp del: parse_value.simps
      split: option.splits if_splits dest: parse_value_defined)

section \<open>The parameter objects of the module\<close>

lemma plain_key_literals:
  "plain_key (js ''path'', v)" "plain_key (js ''ref'', v)" "plain_key (js ''commit'', v)"
  "plain_key (js ''base'', v)" "plain_key (js ''isOutdated'', v)" "plain_key (js ''rootPath'', v)"
  "plain_key (js ''baseCommit'', v)" "plain_key (js ''headCommit'', v)" "plain_key (js ''isBase'', v)"
  "plain_key (js ''fileName'', v)" "plain_key (js ''prNumber'', v)" "plain_key (js ''status'', v)"
  "plain_key (js ''remoteName'', v)"
  by (simp_all add: plain_key_def array_index_def js_def is_digit_def)

lemma scalar_or_undefined_simps:
  "scalar_or_undefined (k, JString s)" "scalar_or_undefined (k, JBool b)"
  "scalar_or_undefined (k, JNumber n)" "scalar_or_undefined (k, optional r)"
  "scalar_or_undefined (k, enum_value m)"
  by (simp_all add: scalar_or_undefined_def scalar_def optional_def enum_value_def
      split: option.split GitChangeType.split)

lemma is_defined_simps:
  "is_defined (k, JString s)" "is_defined (k, JBool b)" "is_defined (k, JNumber n)"
  "is_defined (k, optional r) \<longleftrightarrow> r \<noteq> None" "is_defined (k, enum_value m)"
  by (simp_all add: is_defined_def optional_def enum_value_def
      split: option.split GitChangeType.split)

text \<open>The object literal of \<open>toReviewUri\<close>, written and read back.\<close>

lemma review_params_roundtrip:
  "\<exists>t. JSON_stringify (JObject
          [(js ''path'', JString p), (js ''ref'', optional r), (js ''commit'', JString c),
           (js ''base'', JBool b), (js ''isOutdated'', JBool od), (js ''rootPath'', JString rp)]) = Some t
       \<and> JSON_parse t = Inr (JObject
          ((js ''path'', JString p) # (case r of None \<Rightarrow> [] | Some x \<Rightarrow> [(js ''ref'', JString x)]) @
           [(js ''commit'', JString c), (js ''base'', JBool b), (js ''isOutdated'', JBool od),
            (js ''rootPath'', JString rp)]))"
proof -
  let ?kvs = "[(js ''path'', JString p), (js ''ref'', optional r), (js ''commit'', JString c),
               (js ''base'', JBool b), (js ''isOutdated'', JBool od), (js ''rootPath'', JString rp)]"
  have 1: "list_all scalar_or_undefined ?kvs" by (simp add: scalar_or_undefined_simps)
  have 2: "distinct (map fst ?kvs)" by (simp add: js_inject)
  have 3: "list_all plain_key ?kvs" by (simp add: plain_key_literals)
  have "filter is_defined ?kvs = (js ''path'', JString p) # (case r of None \<Rightarrow> [] | Some x \<Rightarrow> [(js ''ref'', JString x)]) @
           [(js ''commit'', JString c), (js ''base'', JBool b), (js ''isOutdated'', JBool od),
            (js ''rootPath'', JString rp)]"
    by (cases r) (simp_all add: is_defined_simps, simp_all add: optional_def)
  then show ?thesis using flat_object_roundtrip [OF 1 2 3] by simp
qed

text \<open>The object literal of \<open>toPRUri\<close>, written and read back.\<close>

lemma pr_params_roundtrip:
  "\<exists>t. JSON_stringify (JObject
          [(js ''baseCommit'', JString bc), (js ''headCommit'', JString hc), (js ''isBase'', JBool b),
           (js ''fileName'', JString fn), (js ''prNumber'', JNumber n), (js ''status'', enum_value st),
           (js ''remoteName'', JString rn)]) = Some t
       \<and> JSON_parse t = Inr (JObject
          [(js ''baseCommit'', JString bc), (js ''headCommit'', JString hc), (js ''isBase'', JBool b),
           (js ''fileName'', JString fn), (js ''prNumber'', JNumber n), (js ''status'', enum_value st),
           (js ''remoteName'', JString rn)])"
proof -
  let ?kvs = "[(js ''baseCommit'', JString bc), (js ''headCommit'', JString hc), (js ''isBase'', JBool b),
           (js ''fileName'', JString fn), (js ''prNumber'', JNumber n), (js ''status'', enum_value st),
           (js ''remoteName'', JString rn)]"
  have 1: "list_all scalar_or_undefined ?kvs" by (simp add: scalar_or_undefined_simps)
  have 2: "distinct (map fst ?kvs)" by (simp add: js_inject)
  have 3: "list_all plain_key ?kvs" by (simp add: plain_key_literals)
  have "filter is_defined ?kvs = ?kvs" by (simp add: is_defined_simps)
  then show ?thesis using flat_object_roundtrip [OF 1 2 3] by simp
qed

section \<open>Review URIs\<close>

text \<open>What \<open>fromReviewUri\<close> reads from the query \<open>toReviewUri\<close> wrote.\<close>

lemma toReviewUri_query_parsed:
  "fromReviewUri (query (toReviewUri uri filePath ref commit isOutdated options rootUri)) =
     Inr (JObject
       ((js ''path'', JString (case filePath of None \<Rightarrow> path uri | Some p \<Rightarrow> if p = [] then path uri else p))
        # (case ref of None \<Rightarrow> [] | Some x \<Rightarrow> [(js ''ref'', JString x)])
        @ [(js ''commit'', JString commit), (js ''base'', JBool (base options)),
           (js ''isOutdated'', JBool isOutdated), (js ''rootPath'', JString (path rootUri))]))"
proof -
  define p where
    "p = (case filePath of None \<Rightarrow> path uri | Some p \<Rightarrow> if truthy (JString p) then p else path uri)"
  obtain t where t: "JSON_stringify (JObject
          [(js ''path'', JString p), (js ''ref'', optional ref), (js ''commit'', JString commit),
           (js ''base'', JBool (base options)), (js ''isOutdated'', JBool isOutdated),
           (js ''rootPath'', JString (path rootUri))]) = Some t"
       "JSON_parse t = Inr (JObject
          ((js ''path'', JString p) # (case ref of None \<Rightarrow> [] | Some x \<Rightarrow> [(js ''ref'', JString x)]) @
           [(js ''commit'', JString commit), (js ''base'', JBool (base options)),
            (js ''isOutdated'', JBool isOutdated), (js ''rootPath'', JString (path rootUri))]))"
    using review_params_roundtrip by blast
  have q: "query (toReviewUri uri filePath ref commit isOutdated options rootUri) = t"
    unfolding toReviewUri_def Let_def Uri_with_def p_def [symmetric] t(1) by simp
  have p: "p = (case filePath of None \<Rightarrow> path uri | Some p \<Rightarrow> if p = [] then path uri else p)"
    unfolding p_def by (simp split: option.split)
  show ?thesis unfolding q fromReviewUri_def t(2) p ..
qed

lemma toReviewUri_path:
  "path (toReviewUri uri filePath ref commit isOutdated options rootUri) =
     (if replaceFileExtension options = Some True then path uri @ js ''.git'' else path uri)"
  by (simp add: toReviewUri_def Let_def Uri_with_def)

lemma toReviewUri_scheme:
  "scheme (toReviewUri uri filePath ref commit isOutdated options rootUri) = js ''review''"
  by (simp add: toReviewUri_def Let_def Uri_with_def)

text \<open>
  Claim C1. For every input of \<open>toReviewUri\<close> (any path, \<^verbatim>\<open>filePath\<close> and \<^verbatim>\<open>ref\<close> given or not,
  any commit, flags and root path), \<open>fromReviewUri\<close> applied to the query of the URI built
  returns an object whose \<^verbatim>\<open>path\<close>, \<^verbatim>\<open>ref\<close>, \<^verbatim>\<open>commit\<close>, \<^verbatim>\<open>base\<close>, \<^verbatim>\<open>isOutdated\<close> and \<^verbatim>\<open>rootPath\<close>
  are the values the parameter object was built from; a \<^verbatim>\<open>ref\<close> that was \<^verbatim>\<open>undefined\<close> reads
  as \<^verbatim>\<open>undefined\<close> again.
\<close>

theorem toReviewUri_fromReviewUri:
  "let r = fromReviewUri (query (toReviewUri uri filePath ref commit isOutdated options rootUri)) in
     field_of r (js ''path'') =
         Inr (JString (case filePath of None \<Rightarrow> path uri | Some p \<Rightarrow> if p = [] then path uri else p))
     \<and> field_of r (js ''ref'') = Inr (case ref of None \<Rightarrow> JUndefined | Some x \<Rightarrow> JString x)
     \<and> field_of r (js ''commit'') = Inr (JString commit)
     \<and> field_of r (js ''base'') = Inr (JBool (base options))
     \<and> field_of r (js ''isOutdated'') = Inr (JBool isOutdated)
     \<and> field_of r (js ''rootPath'') = Inr (JString (path rootUri))"
  unfolding Let_def toReviewUri_query_parsed field_of_def
  by (cases ref) (simp_all add: js_inject)

theorem toReviewUri_fromReviewUri_witness:
  "let r = fromReviewUri (query (toReviewUri
             \<lparr>scheme = js ''file'', authority = [], path = js ''/w/x.ts'', query = [], fragment = []\<rparr>
             (Some (js ''x.ts'')) None (js ''c0ffee'') True
             \<lparr>replaceFileExtension = Some True, submoduleOf = None, base = False\<rparr>
             \<lparr>scheme = js ''file'', authority = [], path = js ''/w'', query = [], fragment = []\<rparr>)) in
     field_of r (js ''path'') = Inr (JString (js ''x.ts''))
     \<and> field_of r (js ''ref'') = Inr JUndefined
     \<and> field_of r (js ''commit'') = Inr (JString (js ''c0ffee''))
     \<and> field_of r (js ''base'') = Inr (JBool False)
     \<and> field_of r (js ''isOutdated'') = Inr (JBool True)
     \<and> field_of r (js ''rootPath'') = Inr (JString (js ''/w''))"
  using toReviewUri_fromReviewUri
    [of "\<lparr>scheme = js ''file'', authority = [], path = js ''/w/x.ts'', query = [], fragment = []\<rparr>"
        "Some (js ''x.ts'')" None "js ''c0ffee''" True
        "\<lparr>replaceFileExtension = Some True, submoduleOf = None, base = False\<rparr>"
        "\<lparr>scheme = js ''file'', authority = [], path = js ''/w'', query = [], fragment = []\<rparr>"]
  by (simp add: Let_def js_def)

text \<open>
  Claim C8. The call of \<open>toReviewUri\<close> on a URI with path \<^verbatim>\<open>/a/b.txt\<close>, no \<^verbatim>\<open>filePath\<close>, ref
  \<^verbatim>\<open>abc123\<close>, commit \<^verbatim>\<open>def456\<close>, \<^verbatim>\<open>isOutdated\<close> false, options \<^verbatim>\<open>{base: true}\<close> and a root URI
  with path \<^verbatim>\<open>/root\<close> gives a URI with scheme \<^verbatim>\<open>review\<close>, path \<^verbatim>\<open>/a/b.txt\<close> and exactly the
  query text of the scenario, from which \<open>fromReviewUri\<close> rebuilds the parameter object.
\<close>

theorem toReviewUri_scenario:
  \<open>let u = toReviewUri (uri\<lparr>path := js ''/a/b.txt''\<rparr>) None (Some (js ''abc123'')) (js ''def456'') False
             \<lparr>replaceFileExtension = None, submoduleOf = None, base = True\<rparr>
             (rootUri\<lparr>path := js ''/root''\<rparr>) in
     scheme u = js ''review''
     \<and> path u = js ''/a/b.txt''
     \<and> query u = js ''{"path":"/a/b.txt","ref":"abc123","commit":"def456","base":true,"isOutdated":false,"rootPath":"/root"}''
     \<and> fromReviewUri (query u) = Inr (JObject
           [(js ''path'', JString (js ''/a/b.txt'')), (js ''ref'', JString (js ''abc123'')),
            (js ''commit'', JString (js ''def456'')), (js ''base'', JBool True),
            (js ''isOutdated'', JBool False), (js ''rootPath'', JString (js ''/root''))])\<close>
proof -
  have \<open>JSON_stringify (JObject
           [(js ''path'', JString (js ''/a/b.txt'')), (js ''ref'', JString (js ''abc123'')),
            (js ''commit'', JString (js ''def456'')), (js ''base'', JBool True),
            (js ''isOutdated'', JBool False), (js ''rootPath'', JString (js ''/root''))])
        = Some (js ''{"path":"/a/b.txt","ref":"abc123","commit":"def456","base":true,"isOutdated":false,"rootPath":"/root"}'')\<close>
    by (simp add: js_def quote_json_def is_high_surrogate_def is_low_surrogate_def)
  then have \<open>query (toReviewUri (uri\<lparr>path := js ''/a/b.txt''\<rparr>) None (Some (js ''abc123'')) (js ''def456'') False
             \<lparr>replaceFileExtension = None, submoduleOf = None, base = True\<rparr>
             (rootUri\<lparr>path := js ''/root''\<rparr>))
       = js ''{"path":"/a/b.txt","ref":"abc123","commit":"def456","base":true,"isOutdated":false,"rootPath":"/root"}''\<close>
    by (simp add: toReviewUri_def Let_def Uri_with_def optional_def)
  moreover have "fromReviewUri (query (toReviewUri (uri\<lparr>path := js ''/a/b.txt''\<rparr>) None (Some (js ''abc123'')) (js ''def456'') False
             \<lparr>replaceFileExtension = None, submoduleOf = None, base = True\<rparr>
             (rootUri\<lparr>path := js ''/root''\<rparr>))) = Inr (JObject
           [(js ''path'', JString (js ''/a/b.txt'')), (js ''ref'', JString (js ''abc123'')),
            (js ''commit'', JString (js ''def456'')), (js ''base'', JBool True),
            (js ''isOutdated'', JBool False), (js ''rootPath'', JString (js ''/root''))])"
    unfolding toReviewUri_query_parsed by simp
  ultimately show ?thesis
    unfolding Let_def by (simp add: toReviewUri_path toReviewUri_scheme)
qed

section \<open>Pull request URIs\<close>

text \<open>What \<open>fromPRUri\<close> reads from the query \<open>toPRUri\<close> wrote.\<close>

lemma toPRUri_query_parsed:
  "fromPRUri (toPRUri uri pullRequestModel baseCommit headCommit fileName base' status) =
     Inr (JObject
       [(js ''baseCommit'', JString baseCommit), (js ''headCommit'', JString headCommit),
        (js ''isBase'', JBool base'), (js ''fileName'', JString fileName),
        (js ''prNumber'', JNumber (number pullRequestModel)), (js ''status'', enum_value status),
        (js ''remoteName'', JString (remoteName (remote (githubRepository pullRequestModel))))])"
proof -
  obtain t where t: "JSON_stringify (JObject
       [(js ''baseCommit'', JString baseCommit), (js ''headCommit'', JString headCommit),
        (js ''isBase'', JBool base'), (js ''fileName'', JString fileName),
        (js ''prNumber'', JNumber (number pullRequestModel)), (js ''status'', enum_value status),
        (js ''remoteName'', JString (remoteName (remote (githubRepository pullRequestModel))))]) = Some t"
     "JSON_parse t = Inr (JObject
       [(js ''baseCommit'', JString baseCommit), (js ''headCommit'', JString headCommit),
        (js ''isBase'', JBool base'), (js ''fileName'', JString fileName),
        (js ''prNumber'', JNumber (number pullRequestModel)), (js ''status'', enum_value status),
        (js ''remoteName'', JString (remoteName (remote (githubRepository pullRequestModel))))])"
    using pr_params_roundtrip by blast
  have q: "query (toPRUri uri pullRequestModel baseCommit headCommit fileName base' status) = t"
    unfolding toPRUri_def Let_def Uri_with_def t(1) by simp
  show ?thesis unfolding fromPRUri_def q t(2) by simp
qed

text \<open>
  Claim C7. For every input, \<open>toPRUri\<close> builds a URI with scheme \<^verbatim>\<open>pr\<close> and the path of the
  input URI, whose query carries \<^verbatim>\<open>prNumber\<close> equal to the model's \<^verbatim>\<open>number\<close>, \<^verbatim>\<open>remoteName\<close>
  equal to the model's \<^verbatim>\<open>githubRepository.remote.remoteName\<close>, and the \<^verbatim>\<open>baseCommit\<close>,
  \<^verbatim>\<open>headCommit\<close>, \<^verbatim>\<open>isBase\<close>, \<^verbatim>\<open>fileName\<close> and \<^verbatim>\<open>status\<close> supplied, as \<open>fromPRUri\<close> reads them.
\<close>

theorem toPRUri_fields:
  "let u = toPRUri uri pullRequestModel baseCommit headCommit fileName base' status in
     scheme u = js ''pr'' \<and> path u = path uri
     \<and> field_of (fromPRUri u) (js ''prNumber'') = Inr (JNumber (number pullRequestModel))
     \<and> field_of (fromPRUri u) (js ''remoteName'') =
         Inr (JString (remoteName (remote (githubRepository pullRequestModel))))
     \<and> field_of (fromPRUri u) (js ''baseCommit'') = Inr (JString baseCommit)
     \<and> field_of (fromPRUri u) (js ''headCommit'') = Inr (JString headCommit)
     \<and> field_of (fromPRUri u) (js ''isBase'') = Inr (JBool base')
     \<and> field_of (fromPRUri u) (js ''fileName'') = Inr (JString fileName)
     \<and> field_of (fromPRUri u) (js ''status'') = Inr (enum_value status)"
proof -
  have "scheme (toPRUri uri pullRequestModel baseCommit headCommit fileName base' status) = js ''pr''"
    "path (toPRUri uri pullRequestModel baseCommit headCommit fileName base' status) = path uri"
    by (simp_all add: toPRUri_def Let_def Uri_with_def)
  then show ?thesis
    unfolding Let_def toPRUri_query_parsed field_of_def by (simp add: js_inject)
qed

theorem toPRUri_fields_witness:
  "let u = toPRUri
             \<lparr>scheme = js ''file'', authority = [], path = js ''/w/x.ts'', query = [], fragment = []\<rparr>
             \<lparr>number = 4711, githubRepository = \<lparr>remote = \<lparr>remoteName = js ''origin''\<rparr>\<rparr>\<rparr>
             (js ''b0'') (js ''h1'') (js ''x.ts'') True (NumericMember 3) in
     scheme u = js ''pr'' \<and> path u = js ''/w/x.ts''
     \<and> field_of (fromPRUri u) (js ''prNumber'') = Inr (JNumber 4711)
     \<and> field_of (fromPRUri u) (js ''remoteName'') = Inr (JString (js ''origin''))
     \<and> field_of (fromPRUri u) (js ''baseCommit'') = Inr (JString (js ''b0''))
     \<and> field_of (fromPRUri u) (js ''headCommit'') = Inr (JString (js ''h1''))
     \<and> field_of (fromPRUri u) (js ''isBase'') = Inr (JBool True)
     \<and> field_of (fromPRUri u) (js ''fileName'') = Inr (JString (js ''x.ts''))
     \<and> field_of (fromPRUri u) (js ''status'') = Inr (JNumber 3)"
  using toPRUri_fields
    [of "\<lparr>scheme = js ''file'', authority = [], path = js ''/w/x.ts'', query = [], fragment = []\<rparr>"
        "\<lparr>number = 4711, githubRepository = \<lparr>remote = \<lparr>remoteName = js ''origin''\<rparr>\<rparr>\<rparr>"
        "js ''b0''" "js ''h1''" "js ''x.ts''" True "NumericMember 3"]
  by (simp add: Let_def enum_value_def)

section \<open>The path of the URIs built\<close>

text \<open>
  Claim C6. With \<^verbatim>\<open>options.replaceFileExtension\<close> set, the path of the URI \<open>toReviewUri\<close> builds
  is the path of the input URI followed by one \<^verbatim>\<open>.git\<close>, whatever the path ends with; with
  the option unset it is the path of the input URI. \<open>toPRUri\<close>, which takes no options,
  keeps the path of the input URI.
\<close>

theorem replaceFileExtension_path:
  "path (toReviewUri uri filePath ref commit isOutdated options rootUri) =
     (if replaceFileExtension options = Some True then path uri @ js ''.git'' else path uri)
   \<and> path (toPRUri uri pullRequestModel baseCommit headCommit fileName base' status) = path uri"
  by (simp add: toReviewUri_path) (simp add: toPRUri_def Let_def Uri_with_def)

theorem replaceFileExtension_path_witness:
  "path (toReviewUri
           \<lparr>scheme = js ''file'', authority = [], path = js ''/w/x.git'', query = [], fragment = []\<rparr>
           None None (js ''c0ffee'') False
           \<lparr>replaceFileExtension = Some True, submoduleOf = None, base = False\<rparr>
           \<lparr>scheme = js ''file'', authority = [], path = js ''/w'', query = [], fragment = []\<rparr>)
     = js ''/w/x.git.git''
   \<and> path (toPRUri
           \<lparr>scheme = js ''file'', authority = [], path = js ''/w/x.git'', query = [], fragment = []\<rparr>
           \<lparr>number = 1, githubRepository = \<lparr>remote = \<lparr>remoteName = js ''origin''\<rparr>\<rparr>\<rparr>
           (js ''b0'') (js ''h1'') (js ''x.git'') False (StringMember (js ''M'')))
     = js ''/w/x.git''"
  using replaceFileExtension_path
    [of "\<lparr>scheme = js ''file'', authority = [], path = js ''/w/x.git'', query = [], fragment = []\<rparr>"
        None None "js ''c0ffee''" False
        "\<lparr>replaceFileExtension = Some True, submoduleOf = None, base = False\<rparr>"
        "\<lparr>scheme = js ''file'', authority = [], path = js ''/w'', query = [], fragment = []\<rparr>"
        "\<lparr>number = 1, githubRepository = \<lparr>remote = \<lparr>remoteName = js ''origin''\<rparr>\<rparr>\<rparr>"
        "js ''b0''" "js ''h1''" "js ''x.git''" False "StringMember (js ''M'')"]
  by (simp add: js_def)

section \<open>Decoders that swallow a parse failure\<close>

lemma JSON_parse_foo_bar:
  \<open>JSON_parse (js ''{"foo":"bar"}'') = Inr (JObject [(js ''foo'', JString (js ''bar''))])\<close>
proof -
  let ?kvs = "[(js ''foo'', JString (js ''bar''))]"
  have 1: "list_all scalar_or_undefined ?kvs" by (simp add: scalar_or_undefined_simps)
  have 2: "distinct (map fst ?kvs)" by simp
  have 3: "list_all plain_key ?kvs"
    by (simp add: plain_key_def array_index_def js_def is_digit_def)
  have \<open>JSON_stringify (JObject ?kvs) = Some (js ''{"foo":"bar"}'')\<close>
    by (simp add: js_def quote_json_def is_high_surrogate_def is_low_surrogate_def)
  moreover have "filter is_defined ?kvs = ?kvs" by (simp add: is_defined_simps)
  ultimately show ?thesis using flat_object_roundtrip [OF 1 2 3] by simp
qed

text \<open>
  Claim C2, as the code has it. For every URI, \<open>fromPRUri\<close>, \<open>fromGitHubURI\<close> and
  \<open>fromFileChangeNodeUri\<close> never throw; each returns \<^verbatim>\<open>undefined\<close> when the query is empty, is
  \<^verbatim>\<open>not json\<close> or is any other text the parser rejects; and when the query is JSON text, of
  whatever shape, each returns the value parsed, as it is: no function checks the shape.
\<close>

theorem from_uri_swallows_parse_failure:
  "(\<exists>v. fromPRUri uri = Inr v) \<and> (\<exists>v. fromGitHubURI uri = Inr v)
   \<and> (\<exists>v. fromFileChangeNodeUri uri = Inr v)
   \<and> (query uri = [] \<or> query uri = js ''not json'' \<or> JSON_parse (query uri) = Inl e \<longrightarrow>
        fromPRUri uri = Inr JUndefined \<and> fromGitHubURI uri = Inr JUndefined
        \<and> fromFileChangeNodeUri uri = Inr JUndefined)
   \<and> (JSON_parse (query uri) = Inr v \<longrightarrow>
        fromPRUri uri = Inr v \<and> fromGitHubURI uri = Inr v \<and> fromFileChangeNodeUri uri = Inr v)"
proof -
  have never: "(\<exists>v. fromPRUri uri = Inr v) \<and> (\<exists>v. fromGitHubURI uri = Inr v)
      \<and> (\<exists>v. fromFileChangeNodeUri uri = Inr v)"
    by (simp add: fromPRUri_def fromGitHubURI_def fromFileChangeNodeUri_def
        fromFileChangeNodeUri_with_def split: sum.split)
  have rejected: "fromPRUri uri = Inr JUndefined \<and> fromGitHubURI uri = Inr JUndefined
      \<and> fromFileChangeNodeUri uri = Inr JUndefined" if "JSON_parse (query uri) = Inl x" for x
    using that
    by (simp add: fromPRUri_def fromGitHubURI_def fromFileChangeNodeUri_def
        fromFileChangeNodeUri_with_def)
  have parsed: "fromPRUri uri = Inr v \<and> fromGitHubURI uri = Inr v \<and> fromFileChangeNodeUri uri = Inr v"
    if "JSON_parse (query uri) = Inr v"
  proof -
    have "query uri \<noteq> []" using that JSON_parse_empty by auto
    then show ?thesis
      using that
      by (simp add: fromPRUri_def fromGitHubURI_def fromFileChangeNodeUri_def
          fromFileChangeNodeUri_with_def)
  qed
  show ?thesis
    using never rejected parsed JSON_parse_empty JSON_parse_not_json by metis
qed

theorem from_uri_swallows_parse_failure_witness:
  \<open>JSON_parse (js ''not json'') = Inl SyntaxError
   \<and> JSON_parse (js ''{"foo":"bar"}'') = Inr (JObject [(js ''foo'', JString (js ''bar''))])
   \<and> fromPRUri \<lparr>scheme = js ''pr'', authority = [], path = js ''/x.ts'', query = js ''not json'', fragment = []\<rparr>
     = Inr JUndefined
   \<and> fromGitHubURI \<lparr>scheme = js ''pr'', authority = [], path = js ''/x.ts'', query = js ''not json'', fragment = []\<rparr>
     = Inr JUndefined
   \<and> fromFileChangeNodeUri \<lparr>scheme = js ''pr'', authority = [], path = js ''/x.ts'', query = js ''not json'', fragment = []\<rparr>
     = Inr JUndefined
   \<and> fromFileChangeNodeUri \<lparr>scheme = js ''pr'', authority = [], path = js ''/x.ts'', query = js ''{"foo":"bar"}'', fragment = []\<rparr>
     = Inr (JObject [(js ''foo'', JString (js ''bar''))])\<close>
  using from_uri_swallows_parse_failure
    [of "\<lparr>scheme = js ''pr'', authority = [], path = js ''/x.ts'', query = js ''not json'', fragment = []\<rparr>"
        SyntaxError JNull]
    from_uri_swallows_parse_failure
    [of \<open>\<lparr>scheme = js ''pr'', authority = [], path = js ''/x.ts'', query = js ''{"foo":"bar"}'', fragment = []\<rparr>\<close>
        SyntaxError "JObject [(js ''foo'', JString (js ''bar''))]"]
    JSON_parse_foo_bar JSON_parse_not_json
  by simp

text \<open>The claim as the specification words it fails on JSON text of another shape: an object
  with the one property \<^verbatim>\<open>foo\<close> is returned, not \<^verbatim>\<open>undefined\<close>.\<close>

theorem from_uri_wrong_shape_counterexample:
  \<open>fromPRUri \<lparr>scheme = js ''pr'', authority = [], path = js ''/x.ts'', query = js ''{"foo":"bar"}'', fragment = []\<rparr>
     = Inr (JObject [(js ''foo'', JString (js ''bar''))])
   \<and> fromGitHubURI \<lparr>scheme = js ''pr'', authority = [], path = js ''/x.ts'', query = js ''{"foo":"bar"}'', fragment = []\<rparr>
     = Inr (JObject [(js ''foo'', JString (js ''bar''))])
   \<and> fromFileChangeNodeUri \<lparr>scheme = js ''pr'', authority = [], path = js ''/x.ts'', query = js ''{"foo":"bar"}'', fragment = []\<rparr>
     = Inr (JObject [(js ''foo'', JString (js ''bar''))])
   \<and> JObject [(js ''foo'', JString (js ''bar''))] \<noteq> JUndefined\<close>
  by (simp add: fromPRUri_def fromGitHubURI_def fromFileChangeNodeUri_def
      fromFileChangeNodeUri_with_def JSON_parse_foo_bar) (simp add: js_def)

section \<open>The decoder that lets a parse failure through\<close>

text \<open>
  Claim C3. \<open>fromReviewUri\<close> parses its argument as JSON; for every text the parser rejects
  it throws the parser's \<^verbatim>\<open>SyntaxError\<close> to its caller, and for no text at all it returns
  \<^verbatim>\<open>undefined\<close>.
\<close>

theorem fromReviewUri_propagates:
  "fromReviewUri q = JSON_parse q
   \<and> (JSON_parse q = Inl e \<longrightarrow> fromReviewUri q = Inl SyntaxError)
   \<and> fromReviewUri q \<noteq> Inr JUndefined"
  using JSON_parse_error [of q e] JSON_parse_defined [of q] by (auto simp add: fromReviewUri_def)

theorem fromReviewUri_propagates_witness:
  "JSON_parse (js ''not json'') = Inl SyntaxError
   \<and> fromReviewUri (js ''not json'') = Inl SyntaxError
   \<and> fromReviewUri (js ''not json'') \<noteq> Inr JUndefined"
  using fromReviewUri_propagates [of "js ''not json''" SyntaxError] JSON_parse_not_json by simp

section \<open>File change URIs\<close>

text \<open>
  Claim C9. For every URI with an empty query, \<open>fromFileChangeNodeUri\<close> returns \<^verbatim>\<open>undefined\<close>,
  and it does so whatever the parser would do: the parser is not called.
\<close>

theorem fromFileChangeNodeUri_empty_query:
  "query uri = [] \<Longrightarrow>
     fromFileChangeNodeUri uri = Inr JUndefined
     \<and> (\<forall>parse. fromFileChangeNodeUri_with parse uri = Inr JUndefined)"
  by (simp add: fromFileChangeNodeUri_def fromFileChangeNodeUri_with_def)

theorem fromFileChangeNodeUri_empty_query_witness:
  "query \<lparr>scheme = js ''filechange'', authority = [], path = js ''/x.ts'', query = [], fragment = []\<rparr> = []
   \<and> fromFileChangeNodeUri
       \<lparr>scheme = js ''filechange'', authority = [], path = js ''/x.ts'', query = [], fragment = []\<rparr>
     = Inr JUndefined
   \<and> fromFileChangeNodeUri_with (\<lambda>s. Inr (JString s))
       \<lparr>scheme = js ''filechange'', authority = [], path = js ''/x.ts'', query = [], fragment = []\<rparr>
     = Inr JUndefined"
  using fromFileChangeNodeUri_empty_query
    [of "\<lparr>scheme = js ''filechange'', authority = [], path = js ''/x.ts'', query = [], fragment = []\<rparr>"]
  by simp

section \<open>Resolving a path against a URI\<close>

text \<open>
  Claim C5. For every URI and path, \<open>resolvePath\<close> is the platform's native \<^verbatim>\<open>resolve\<close> on
  the file-system path of the URI when its scheme is \<^verbatim>\<open>file\<close>, and for every other scheme
  the POSIX \<^verbatim>\<open>resolve\<close> on the path of the URI, whatever the native function is.
\<close>

theorem resolvePath_by_scheme:
  "(scheme from = js ''file'' \<longrightarrow>
      resolvePath platform from to = pathUtils_resolve platform (fsPath platform from) to)
   \<and> (scheme from \<noteq> js ''file'' \<longrightarrow>
      resolvePath platform from to = pathUtils_posix_resolve platform (path from) to
      \<and> resolvePath (platform\<lparr>pathUtils_resolve := native, fsPath := native_path\<rparr>) from to
          = resolvePath platform from to)"
  by (simp add: resolvePath_def Schemas_file_def)

theorem resolvePath_by_scheme_witness:
  "scheme \<lparr>scheme = js ''file'', authority = [], path = js ''/w'', query = [], fragment = []\<rparr> = js ''file''
   \<and> scheme \<lparr>scheme = js ''review'', authority = [], path = js ''/w'', query = [], fragment = []\<rparr>
       \<noteq> js ''file''
   \<and> resolvePath
     \<lparr>fsPath = (\<lambda>u. js ''C:'' @ path u), pathUtils_resolve = (\<lambda>a b. a @ [0x5C] @ b),
      pathUtils_posix_resolve = (\<lambda>a b. a @ js ''/'' @ b), pathUtils_dirname = id,
      pathUtils_basename = id\<rparr>
     \<lparr>scheme = js ''file'', authority = [], path = js ''/w'', query = [], fragment = []\<rparr> (js ''x.ts'')
     = js ''C:/w'' @ [0x5C] @ js ''x.ts''
   \<and> resolvePath
     \<lparr>fsPath = (\<lambda>u. js ''C:'' @ path u), pathUtils_resolve = (\<lambda>a b. a @ [0x5C] @ b),
      pathUtils_posix_resolve = (\<lambda>a b. a @ js ''/'' @ b), pathUtils_dirname = id,
      pathUtils_basename = id\<rparr>
     \<lparr>scheme = js ''review'', authority = [], path = js ''/w'', query = [], fragment = []\<rparr> (js ''x.ts'')
     = js ''/w/x.ts''"
  using resolvePath_by_scheme
    [of "\<lparr>scheme = js ''file'', authority = [], path = js ''/w'', query = [], fragment = []\<rparr>"
        "\<lparr>fsPath = (\<lambda>u. js ''C:'' @ path u), pathUtils_resolve = (\<lambda>a b. a @ [0x5C] @ b),
          pathUtils_posix_resolve = (\<lambda>a b. a @ js ''/'' @ b), pathUtils_dirname = id,
          pathUtils_basename = id\<rparr>" "js ''x.ts''"]
    resolvePath_by_scheme
    [of "\<lparr>scheme = js ''review'', authority = [], path = js ''/w'', query = [], fragment = []\<rparr>"
        "\<lparr>fsPath = (\<lambda>u. js ''C:'' @ path u), pathUtils_resolve = (\<lambda>a b. a @ [0x5C] @ b),
          pathUtils_posix_resolve = (\<lambda>a b. a @ js ''/'' @ b), pathUtils_dirname = id,
          pathUtils_basename = id\<rparr>" "js ''x.ts''"]
  by (simp add: js_def)

section \<open>The two paths of a review URI\<close>

text \<open>
  Claim C10, as the code has it. When \<^verbatim>\<open>filePath\<close> is a non-empty string, the \<^verbatim>\<open>path\<close> field in
  the query of the URI \<open>toReviewUri\<close> builds is \<^verbatim>\<open>filePath\<close>, never with \<^verbatim>\<open>.git\<close> added, while the
  path component of the URI is the path of the input URI, followed by \<^verbatim>\<open>.git\<close> when
  \<^verbatim>\<open>options.replaceFileExtension\<close> is set; so the two differ whenever \<^verbatim>\<open>filePath\<close> differs from
  that path component.
\<close>

theorem toReviewUri_filePath:
  "p \<noteq> [] \<Longrightarrow>
     (let u = toReviewUri uri (Some p) ref commit isOutdated options rootUri in
        field_of (fromReviewUri (query u)) (js ''path'') = Inr (JString p)
        \<and> path u = (if replaceFileExtension options = Some True then path uri @ js ''.git''
                    else path uri)
        \<and> (p \<noteq> (if replaceFileExtension options = Some True then path uri @ js ''.git''
                   else path uri)
             \<longrightarrow> field_of (fromReviewUri (query u)) (js ''path'') \<noteq> Inr (JString (path u))))"
  unfolding Let_def toReviewUri_query_parsed toReviewUri_path field_of_def by simp

theorem toReviewUri_filePath_witness:
  "(let u = toReviewUri
              \<lparr>scheme = js ''file'', authority = [], path = js ''/w/src/x.ts'', query = [], fragment = []\<rparr>
              (Some (js ''src/x.ts'')) None (js ''c0ffee'') False
              \<lparr>replaceFileExtension = Some True, submoduleOf = None, base = True\<rparr>
              \<lparr>scheme = js ''file'', authority = [], path = js ''/w'', query = [], fragment = []\<rparr> in
      js ''src/x.ts'' \<noteq> []
      \<and> field_of (fromReviewUri (query u)) (js ''path'') = Inr (JString (js ''src/x.ts''))
      \<and> path u = js ''/w/src/x.ts.git''
      \<and> field_of (fromReviewUri (query u)) (js ''path'') \<noteq> Inr (JString (path u)))"
  using toReviewUri_filePath
    [of "js ''src/x.ts''"
        "\<lparr>scheme = js ''file'', authority = [], path = js ''/w/src/x.ts'', query = [], fragment = []\<rparr>"
        None "js ''c0ffee''" False
        "\<lparr>replaceFileExtension = Some True, submoduleOf = None, base = True\<rparr>"
        "\<lparr>scheme = js ''file'', authority = [], path = js ''/w'', query = [], fragment = []\<rparr>"]
  by (simp add: Let_def js_def)

text \<open>
  The claim as worded fails twice. An empty \<^verbatim>\<open>filePath\<close> is given and yet the \<^verbatim>\<open>path\<close> field is
  the path of the input URI. And a \<^verbatim>\<open>filePath\<close> that differs from the path of the input URI
  can be that path followed by \<^verbatim>\<open>.git\<close>: with \<^verbatim>\<open>replaceFileExtension\<close> set, the path component
  and the \<^verbatim>\<open>path\<close> field are then the same.
\<close>

theorem toReviewUri_filePath_counterexample:
  "field_of (fromReviewUri (query (toReviewUri
       \<lparr>scheme = js ''file'', authority = [], path = js ''/a'', query = [], fragment = []\<rparr>
       (Some []) None (js ''c0ffee'') False
       \<lparr>replaceFileExtension = None, submoduleOf = None, base = True\<rparr>
       \<lparr>scheme = js ''file'', authority = [], path = js ''/w'', query = [], fragment = []\<rparr>)))
     (js ''path'') = Inr (JString (js ''/a''))
   \<and> JString (js ''/a'') \<noteq> JString []
   \<and> js ''/a.git'' \<noteq> js ''/a''
   \<and> path (toReviewUri
       \<lparr>scheme = js ''file'', authority = [], path = js ''/a'', query = [], fragment = []\<rparr>
       (Some (js ''/a.git'')) None (js ''c0ffee'') False
       \<lparr>replaceFileExtension = Some True, submoduleOf = None, base = True\<rparr>
       \<lparr>scheme = js ''file'', authority = [], path = js ''/w'', query = [], fragment = []\<rparr>)
     = js ''/a.git''
   \<and> field_of (fromReviewUri (query (toReviewUri
       \<lparr>scheme = js ''file'', authority = [], path = js ''/a'', query = [], fragment = []\<rparr>
       (Some (js ''/a.git'')) None (js ''c0ffee'') False
       \<lparr>replaceFileExtension = Some True, submoduleOf = None, base = True\<rparr>
       \<lparr>scheme = js ''file'', authority = [], path = js ''/w'', query = [], fragment = []\<rparr>)))
     (js ''path'') = Inr (JString (js ''/a.git''))"
  unfolding toReviewUri_query_parsed toReviewUri_path field_of_def by (simp add: js_def)

section \<open>Images\<close>

text \<open>
  Where the repository finds plain text, \<open>asImageDataURI\<close> returns nothing, whatever came
  before.
\<close>

lemma asImageDataURI_text_plain:
  assumes "\<And>object. detectObjectType repository object = Inr (js ''text/plain'')"
  shows "asImageDataURI platform TemporaryState_write uri repository = Fulfilled None"
  unfolding asImageDataURI_def asImageDataURI_try_def Let_def
  by (simp add: assms split: sum.split)

text \<open>
  Where the query is an object with a string for \<^verbatim>\<open>path\<close>, the repository answers every call
  and finds one of the image types, and the call of \<^verbatim>\<open>TemporaryState.write\<close> returns, the
  result is the promise it returned.
\<close>

lemma asImageDataURI_image:
  assumes "JSON_parse (query uri) = Inr (JObject kvs)"
    and "map_of kvs (js ''path'') = Some (JString p)"
    and "\<And>ref. getObjectDetails repository ref (fsPath platform uri) = Inr object"
    and "detectObjectType repository object = Inr mimetype"
    and "mimetype \<in> set ImageMimetypes"
    and "\<And>ref. buffer repository ref (fsPath platform uri) = Inr contents"
    and "TemporaryState_write (pathUtils_dirname platform p) (pathUtils_basename platform p) contents
           = Inr result"
  shows "asImageDataURI platform TemporaryState_write uri repository = result"
proof -
  have "mimetype \<noteq> js ''text/plain''"
    using assms(5) by (auto simp add: ImageMimetypes_def js_inject)
  then show ?thesis
    unfolding asImageDataURI_def asImageDataURI_try_def Let_def
    by (simp add: assms string_arg_def)
qed

text \<open>
  A rejection comes from the promise \<^verbatim>\<open>TemporaryState.write\<close> returned, and from nowhere
  else: an exception of the parser, of a property read, of the repository, of a \<^verbatim>\<open>path\<close>
  function or of the call of \<^verbatim>\<open>TemporaryState.write\<close> itself ends in the \<^verbatim>\<open>catch\<close> block.
\<close>

lemma asImageDataURI_rejected:
  assumes "asImageDataURI platform TemporaryState_write uri repository = Rejected e"
  shows "\<exists>d b c. TemporaryState_write d b c = Inr (Rejected e)"
  using assms
  unfolding asImageDataURI_def asImageDataURI_try_def Let_def
  by (auto split: sum.splits if_splits)

lemma asImageDataURI_swallows:
  assumes "\<And>d b c p. TemporaryState_write d b c \<noteq> Inr (Rejected p)"
  shows "\<exists>r. asImageDataURI platform TemporaryState_write uri repository = Fulfilled r"
proof (cases "asImageDataURI platform TemporaryState_write uri repository")
  case (Rejected e)
  then show ?thesis using asImageDataURI_rejected assms by blast
qed simp

text \<open>
  Claim C4 fails on the code where the write fails after the call has returned: the
  promise \<^verbatim>\<open>TemporaryState.write\<close> returns is returned from inside the \<^verbatim>\<open>try\<close> block without
  \<^verbatim>\<open>await\<close>, so its rejection is not caught, and the promise of \<open>asImageDataURI\<close> rejects
  where the claim has it return nothing. Here the URI is one \<open>toReviewUri\<close> built, the
  repository answers every call and finds a PNG image, and the write rejects.
\<close>

theorem asImageDataURI_write_rejection:
  "asImageDataURI
     \<lparr>fsPath = path, pathUtils_resolve = (\<lambda>a b. a @ js ''/'' @ b),
      pathUtils_posix_resolve = (\<lambda>a b. a @ js ''/'' @ b),
      pathUtils_dirname = (\<lambda>p. js ''/w''), pathUtils_basename = (\<lambda>p. js ''logo.png'')\<rparr>
     (\<lambda>directory name contents. Inr (Rejected (HostError (js ''EIO''))))
     (toReviewUri
        \<lparr>scheme = js ''file'', authority = [], path = js ''/w/logo.png'', query = [], fragment = []\<rparr>
        None None (js ''c0ffee'') False
        \<lparr>replaceFileExtension = None, submoduleOf = None, base = False\<rparr>
        \<lparr>scheme = js ''file'', authority = [], path = js ''/w'', query = [], fragment = []\<rparr>)
     \<lparr>getObjectDetails = (\<lambda>ref p. Inr (js ''0123abcd'')),
      detectObjectType = (\<lambda>object. Inr (js ''image/png'')),
      buffer = (\<lambda>ref p. Inr [0x89, 0x50, 0x4E, 0x47])\<rparr>
   = Rejected (HostError (js ''EIO''))"
proof -
  have "JSON_parse (query (toReviewUri
        \<lparr>scheme = js ''file'', authority = [], path = js ''/w/logo.png'', query = [], fragment = []\<rparr>
        None None (js ''c0ffee'') False
        \<lparr>replaceFileExtension = None, submoduleOf = None, base = False\<rparr>
        \<lparr>scheme = js ''file'', authority = [], path = js ''/w'', query = [], fragment = []\<rparr>))
     = Inr (JObject [(js ''path'', JString (js ''/w/logo.png'')), (js ''commit'', JString (js ''c0ffee'')),
          (js ''base'', JBool False), (js ''isOutdated'', JBool False),
          (js ''rootPath'', JString (js ''/w''))])"
    using toReviewUri_query_parsed
      [of "\<lparr>scheme = js ''file'', authority = [], path = js ''/w/logo.png'', query = [], fragment = []\<rparr>"
          None None "js ''c0ffee''" False
          "\<lparr>replaceFileExtension = None, submoduleOf = None, base = False\<rparr>"
          "\<lparr>scheme = js ''file'', authority = [], path = js ''/w'', query = [], fragment = []\<rparr>"]
    by (simp add: fromReviewUri_def)
  then show ?thesis
    unfolding asImageDataURI_def asImageDataURI_try_def Let_def
    by (simp add: js_inject ImageMimetypes_def string_arg_def toReviewUri_scheme)
qed

end
